theory Spec2Isabelle
  imports Main "HOL-Library.Word" "HOL-Library.Product_Lexorder"
begin

section \<open>Profiler event collection: data model\<close>

text \<open>
  The development follows \<^verbatim>\<open>torch/csrc/profiler/collection.cpp\<close>.

  A \<^verbatim>\<open>std::shared_ptr<Result>\<close> is modelled as an address (a natural number) into an
  explicit store of \<^verbatim>\<open>Result\<close> objects, because the tree builder and the external-trace
  merge mutate the objects through aliases (\<^verbatim>\<open>parent_\<close>, \<^verbatim>\<open>children_\<close>, the stack map, the
  heap of pending ends). A \<^verbatim>\<open>std::weak_ptr<Result>\<close> is an optional address: every
  \<^verbatim>\<open>Result\<close> is kept alive by the result vector, so \<^verbatim>\<open>lock()\<close> fails exactly when
  the pointer was never set.

  Timestamps are \<^verbatim>\<open>int64_t\<close> in the source. They are modelled as unbounded integers with
  the sentinel \<^verbatim>\<open>std::numeric_limits<time_t>::min()\<close> as a constant: signed overflow is
  undefined behaviour in C++, so the model describes the executions in which the
  products \<^verbatim>\<open>end_time_us_ * 1000\<close> and \<^verbatim>\<open>duration_us_ * 1000\<close> do not overflow.
\<close>

type_synonym time_t = int
type_synonym tid_t = nat
type_synonym rid = nat

definition time_min :: time_t where
  "time_min = - (2 ^ 63)"

text \<open>\<^verbatim>\<open>TransferEvents::noTID\<close>, the largest \<^verbatim>\<open>uint64_t\<close>.\<close>

definition noTID :: tid_t where
  "noTID = 2 ^ 64 - 1"

text \<open>\<^verbatim>\<open>libkineto::kLinkAsyncCpuGpu\<close>.\<close>

definition kLinkAsyncCpuGpu :: nat where
  "kLinkAsyncCpuGpu = 2"

text \<open>
  One entry of \<^verbatim>\<open>Inputs::tensor_metadata_\<close>: \<^verbatim>\<open>impl_\<close> (the \<^verbatim>\<open>TensorImpl\<close> address),
  \<^verbatim>\<open>data_\<close> (the storage data pointer) and \<^verbatim>\<open>id_\<close> (the \<^verbatim>\<open>c10::optional<TensorID>\<close>).
  A null pointer is the address 0.
\<close>

record tensor_metadata =
  impl :: nat
  data :: nat
  id :: "nat option"

text \<open>
  The variant \<^verbatim>\<open>extra_fields_\<close>, with the fields of each alternative that the collation
  code reads or writes.
\<close>

datatype extra_fields =
    TorchOp (end_time_ns: time_t) (forward_tid: tid_t)
            (inputs: "tensor_metadata option list")
  | Backend (end_time_us: time_t)
  | Allocation (ptr: nat) (alloc_size: int) (alloc_id: "nat option")
  | OutOfMemory
  | PyCall (py_end_time_ns: time_t)
  | PyCCall (pyc_end_time_ns: time_t)
  | Kineto (duration_us: int) (flow_id: nat) (flow_type: nat) (flow_start: bool)
           (linked_activity: "rid option")

record result =
  start_time_ns :: time_t
  start_tid :: tid_t
  extra_fields :: extra_fields
  parent :: "rid option"
  children :: "rid list"
  finished :: bool

type_synonym store = "rid \<Rightarrow> result"

subsection \<open>Outcomes\<close>

text \<open>
  A call either does not return (\<open>None\<close>: a recursion or loop that never ends), or
  throws (\<open>Some (Inl e)\<close>), or returns a value (\<open>Some (Inr v)\<close>).
\<close>

datatype error = AssertionError | OutOfRange

type_synonym 'a outcome = "(error + 'a) option"

definition ok :: "'a \<Rightarrow> 'a outcome" where
  "ok x = Some (Inr x)"

definition throw :: "error \<Rightarrow> 'a outcome" where
  "throw e = Some (Inl e)"

definition bind_outcome :: "'a outcome \<Rightarrow> ('a \<Rightarrow> 'b outcome) \<Rightarrow> 'b outcome" where
  "bind_outcome m f =
     (case m of None \<Rightarrow> None | Some (Inl e) \<Rightarrow> Some (Inl e) | Some (Inr x) \<Rightarrow> f x)"

lemma bind_outcome_mono [partial_function_mono]:
  assumes "mono_option B" and "\<And>y. mono_option (C y)"
  shows "mono_option (\<lambda>f. bind_outcome (B f) (\<lambda>y. C y f))"
proof -
  have eq: "\<And>m g. bind_outcome m g =
      Option.bind m (\<lambda>r. case r of Inl e \<Rightarrow> Some (Inl e) | Inr x \<Rightarrow> g x)"
    by (simp add: bind_outcome_def split: option.splits sum.splits)
  have "mono_option (\<lambda>f. case r of Inl e \<Rightarrow> Some (Inl e) | Inr x \<Rightarrow> C x f)" for r
    by (cases r) (simp_all add: assms option.const_mono)
  then show ?thesis
    unfolding eq by (intro bind_mono assms)
qed

lemma bind_outcome_ok [simp]: "bind_outcome (ok x) f = f x"
  by (simp add: bind_outcome_def ok_def)

lemma bind_outcome_Some_Inr [simp]: "bind_outcome (Some (Inr x)) f = f x"
  by (simp add: bind_outcome_def)

lemma bind_outcome_throw [simp]: "bind_outcome (throw e) f = throw e"
  by (simp add: bind_outcome_def throw_def)

lemma bind_outcome_Some_Inl [simp]: "bind_outcome (Some (Inl e)) f = Some (Inl e)"
  by (simp add: bind_outcome_def)

lemma bind_outcome_None [simp]: "bind_outcome None f = None"
  by (simp add: bind_outcome_def)

lemma bind_outcome_eq_ok:
  "bind_outcome m f = Some (Inr y) \<longleftrightarrow> (\<exists>x. m = Some (Inr x) \<and> f x = Some (Inr y))"
  by (simp add: bind_outcome_def split: option.splits sum.splits)

lemma ok_eq [simp]: "ok x = Some (Inr y) \<longleftrightarrow> x = y"
  by (simp add: ok_def)

lemma throw_neq [simp]: "throw e \<noteq> Some (Inr y)"
  by (simp add: throw_def)

section \<open>Reading an event's end time\<close>

text \<open>
  Modelled from the spec: the macro \<^verbatim>\<open>SOFT_ASSERT\<close> is declared outside this file. The
  spec describes the check on a missing end time as an assertion that the inherited
  value is not earlier than the event's own start time, and a negative duration after
  finalization as a fatal assertion. The model takes the severity as the parameter
  \<open>raises\<close>: a failed check throws when \<open>raises\<close> holds, and otherwise only warns and
  yields \<^verbatim>\<open>false\<close>, in which case \<^verbatim>\<open>endTimeNS\<close> falls back to the start time as
  its last line says.
\<close>

definition SOFT_ASSERT :: "bool \<Rightarrow> bool \<Rightarrow> bool outcome" where
  "SOFT_ASSERT raises cond =
     (if cond then ok True else if raises then throw AssertionError else ok False)"

text \<open>
  \<^verbatim>\<open>Result::endTimeNS\<close>, with \<^verbatim>\<open>torchOpEndNS\<close> inlined in the \<open>TorchOp\<close> case: the two call
  each other in the source, through \<^verbatim>\<open>p->endTimeNS()\<close> on the parent. Nothing bounds that
  recursion in the source, so the function is partial.
\<close>

partial_function (option) endTimeNS :: "bool \<Rightarrow> store \<Rightarrow> rid \<Rightarrow> time_t outcome" where
  "endTimeNS raises st r =
     bind_outcome
       (case extra_fields (st r) of
          TorchOp e_end fwd ins \<Rightarrow>
            (if finished (st r) \<and> e_end = time_min
             then (case parent (st r) of
                     Some p \<Rightarrow> endTimeNS raises st p
                   | None \<Rightarrow> ok e_end)
             else ok e_end)
        | Backend e_end_us \<Rightarrow> ok (e_end_us * 1000)
        | Allocation a_ptr a_size a_id \<Rightarrow> ok (start_time_ns (st r))
        | OutOfMemory \<Rightarrow> ok (start_time_ns (st r))
        | PyCall e_end \<Rightarrow> ok e_end
        | PyCCall e_end \<Rightarrow> ok e_end
        | Kineto dur f_id f_type f_start lnk \<Rightarrow> ok (start_time_ns (st r) + dur * 1000))
       (\<lambda>end_time_ns.
          bind_outcome
            (if \<not> finished (st r) then ok True
             else SOFT_ASSERT raises (end_time_ns \<ge> start_time_ns (st r)))
            (\<lambda>end_time_is_valid.
               ok (if end_time_is_valid then end_time_ns else start_time_ns (st r))))"

declare endTimeNS.simps [code]

section \<open>Correlation ids\<close>

text \<open>
  \<^verbatim>\<open>EventBlock::EventBlock()\<close>: the constructor reads the static atomic counter, advances it
  by one and stores \<^verbatim>\<open>1 + ChunkSize * counter\<close> in \<^verbatim>\<open>id_start_\<close>. The model returns the
  new \<^verbatim>\<open>id_start_\<close> and the new value of the counter. All arithmetic is on \<^verbatim>\<open>uint64_t\<close>.
\<close>

definition EventBlock :: "nat \<Rightarrow> 64 word \<Rightarrow> 64 word \<times> 64 word" where
  "EventBlock ChunkSize counter = (1 + of_nat ChunkSize * counter, counter + 1)"

text \<open>
  \<^verbatim>\<open>EventBlock::correlation_id(ptr)\<close>, where \<open>idx\<close> is \<^verbatim>\<open>ptr - this->data()\<close>.
\<close>

definition correlation_id :: "64 word \<Rightarrow> nat \<Rightarrow> 64 word" where
  "correlation_id id_start idx = id_start + of_nat idx"

text \<open>
  The \<^verbatim>\<open>id_start_\<close> values of the blocks made by \<open>n\<close> constructor calls, in the order in
  which the calls took their counter value.
\<close>

fun make_blocks :: "nat \<Rightarrow> nat \<Rightarrow> 64 word \<Rightarrow> 64 word list" where
  "make_blocks ChunkSize 0 counter = []"
| "make_blocks ChunkSize (Suc n) counter =
     (case EventBlock ChunkSize counter of
        (id_start, counter') \<Rightarrow> id_start # make_blocks ChunkSize n counter')"


section \<open>Tree construction\<close>

text \<open>
  \<^verbatim>\<open>mark_finished\<close>. Both checks are \<^verbatim>\<open>TORCH_INTERNAL_ASSERT\<close>: a failed one throws.
\<close>

definition mark_finished :: "bool \<Rightarrow> store \<Rightarrow> rid \<Rightarrow> store outcome" where
  "mark_finished raises st r =
     (if finished (st r) then throw AssertionError
      else let st' = st(r := (st r)\<lparr>finished := True\<rparr>)
           in bind_outcome (endTimeNS raises st' r)
                (\<lambda>t. if t \<ge> start_time_ns (st' r) then ok st' else throw AssertionError))"

subsection \<open>The queue of pending ends\<close>

text \<open>
  \<^verbatim>\<open>end_events_\<close> is a \<^verbatim>\<open>std::priority_queue\<close> ordered by \<^verbatim>\<open>ResultGreater\<close>, so its top is an
  element whose \<^verbatim>\<open>endTimeNS()\<close> is least. The queue is modelled by the list of its
  elements in the order in which they were pushed; the comparator reads the end times
  from the objects, so the model reads them from the store when the top is asked for.
  Which of several elements with the same least end time is on top is left to the
  library: the model takes that choice as the parameter \<open>tie\<close>, a function from the
  candidates to the one chosen (the first candidate when \<open>tie\<close> names none of them).
\<close>

fun end_times :: "bool \<Rightarrow> store \<Rightarrow> rid list \<Rightarrow> time_t list outcome" where
  "end_times raises st [] = ok []"
| "end_times raises st (x # xs) =
     bind_outcome (endTimeNS raises st x)
       (\<lambda>t. bind_outcome (end_times raises st xs) (\<lambda>ts. ok (t # ts)))"

definition min_end_events :: "rid list \<Rightarrow> time_t list \<Rightarrow> rid list" where
  "min_end_events heap ts = map fst (filter (\<lambda>(x, t). t = min_list ts) (zip heap ts))"

definition pick :: "(rid list \<Rightarrow> rid) \<Rightarrow> rid list \<Rightarrow> rid" where
  "pick tie cands = (if tie cands \<in> set cands then tie cands else hd cands)"

text \<open>
  \<^verbatim>\<open>end_events_.top()\<close> on a non-empty queue, together with the end time of the top.
\<close>

definition pq_top ::
  "(rid list \<Rightarrow> rid) \<Rightarrow> bool \<Rightarrow> store \<Rightarrow> rid list \<Rightarrow> (rid \<times> time_t) outcome" where
  "pq_top tie raises st heap =
     bind_outcome (end_times raises st heap)
       (\<lambda>ts. ok (pick tie (min_end_events heap ts), min_list ts))"

subsection \<open>\<^verbatim>\<open>push_event\<close> and \<^verbatim>\<open>pop_event\<close>\<close>

text \<open>The visitor in \<^verbatim>\<open>push_event\<close> that reads \<^verbatim>\<open>forward_tid_\<close>.\<close>

definition fwd_tid_of :: "extra_fields \<Rightarrow> tid_t" where
  "fwd_tid_of e = (case e of TorchOp e_end fwd ins \<Rightarrow> fwd | _ \<Rightarrow> 0)"

type_synonym stacks = "tid_t \<rightharpoonup> rid"
type_synonym build_state = "store \<times> stacks \<times> rid list"

text \<open>
  The lambda \<^verbatim>\<open>push_event\<close> of \<^verbatim>\<open>build_tree\<close>. The state is the store, the map \<^verbatim>\<open>stacks\<close>
  and the queue \<^verbatim>\<open>end_events_\<close>. The source calls \<^verbatim>\<open>event->endTimeNS()\<close> in both
  conditions; the store does not change between the two calls, so the model calls it
  once.
\<close>

definition push_event :: "bool \<Rightarrow> build_state \<Rightarrow> rid \<Rightarrow> build_state outcome" where
  "push_event raises s event =
     (case s of (st, stacks, end_events) \<Rightarrow>
      if is_Kineto (extra_fields (st event)) \<and> finished (st event) then ok s
      else if parent (st event) \<noteq> None then throw AssertionError
      else if \<exists>child \<in> set (children (st event)). \<not> finished (st child)
        then throw AssertionError
      else if finished (st event) then throw AssertionError
      else
        let parent_it =
              (case stacks (start_tid (st event)) of
                 Some p \<Rightarrow> Some p
               | None \<Rightarrow>
                   (let fwd_tid = fwd_tid_of (extra_fields (st event))
                    in if fwd_tid \<noteq> 0 then stacks fwd_tid else None));
            st1 =
              (case parent_it of
                 Some p \<Rightarrow>
                   (let st' = st(event := (st event)\<lparr>parent := Some p\<rparr>)
                    in st'(p := (st' p)\<lparr>children := children (st' p) @ [event]\<rparr>))
               | None \<Rightarrow> st)
        in bind_outcome (endTimeNS raises st1 event)
             (\<lambda>t. if t > start_time_ns (st1 event)
                   then ok (st1, stacks(start_tid (st1 event) \<mapsto> event),
                            end_events @ [event])
                  else if t = time_min
                   then ok (st1, stacks(start_tid (st1 event) \<mapsto> event), end_events)
                  else bind_outcome (mark_finished raises st1 event)
                         (\<lambda>st2. ok (st2, stacks, end_events))))"

text \<open>
  The \<^verbatim>\<open>while (frame.get() != event.get())\<close> loop of \<^verbatim>\<open>pop_event\<close>: it walks up the parent
  links from the open frame of the thread to the event, finishing every frame on the
  way. An expired parent fails the assertion.
\<close>

partial_function (option) pop_event_loop ::
  "bool \<Rightarrow> store \<Rightarrow> rid \<Rightarrow> rid \<Rightarrow> store outcome" where
  "pop_event_loop raises st frame event =
     (if frame = event then ok st
      else bind_outcome (mark_finished raises st frame)
             (\<lambda>st'. case parent (st' frame) of
                      None \<Rightarrow> throw AssertionError
                    | Some p \<Rightarrow> pop_event_loop raises st' p event))"

declare pop_event_loop.simps [code]

text \<open>
  The lambda \<^verbatim>\<open>pop_event\<close>. \<^verbatim>\<open>stacks.at(start_tid)\<close> throws \<^verbatim>\<open>std::out_of_range\<close> when the
  thread has no open frame.
\<close>

definition pop_event ::
  "bool \<Rightarrow> store \<times> stacks \<Rightarrow> rid \<Rightarrow> (store \<times> stacks) outcome" where
  "pop_event raises s event =
     (case s of (st, stacks) \<Rightarrow>
      if finished (st event) then ok s
      else
        let start_tid = start_tid (st event)
        in case stacks start_tid of
             None \<Rightarrow> throw OutOfRange
           | Some frame \<Rightarrow>
               bind_outcome (pop_event_loop raises st frame event)
                 (\<lambda>st1. bind_outcome (mark_finished raises st1 event)
                    (\<lambda>st2. let stacks' = stacks(start_tid := None)
                           in ok (st2, case parent (st2 event) of
                                         Some new_frame \<Rightarrow> stacks'(start_tid \<mapsto> new_frame)
                                       | None \<Rightarrow> stacks'))))"

subsection \<open>The replay loop\<close>

lemma bind_outcome_cong [fundef_cong]:
  "m = m' \<Longrightarrow> (\<And>x. m' = Some (Inr x) \<Longrightarrow> f x = f' x)
   \<Longrightarrow> bind_outcome m f = bind_outcome m' f'"
  by (auto simp: bind_outcome_def split: option.splits sum.splits)

lemma end_times_length:
  "end_times raises st xs = Some (Inr ts) \<Longrightarrow> length ts = length xs"
  by (induction xs arbitrary: ts) (auto simp: bind_outcome_eq_ok)

lemma pick_mem: "cands \<noteq> [] \<Longrightarrow> pick tie cands \<in> set cands"
  by (simp add: pick_def)

lemma min_end_events_nonempty:
  assumes "length ts = length heap" "heap \<noteq> []"
  shows "min_end_events heap ts \<noteq> []"
proof -
  have "ts \<noteq> []" using assms by auto
  then have "min_list ts \<in> set ts" by (simp add: min_list_Min)
  then obtain i where i: "i < length ts" "ts ! i = min_list ts"
    by (auto simp: in_set_conv_nth)
  then have "(heap ! i, min_list ts) \<in> set (zip heap ts)"
    using assms(1) by (auto simp: in_set_zip)
  then have "heap ! i \<in> set (min_end_events heap ts)"
    by (force simp: min_end_events_def)
  then show ?thesis by auto
qed

lemma min_end_events_subset: "set (min_end_events heap ts) \<subseteq> set heap"
  by (auto simp: min_end_events_def dest: set_zip_leftD)

lemma pq_top_mem:
  assumes "pq_top tie raises st heap = Some (Inr (tp, t))" "heap \<noteq> []"
  shows "tp \<in> set heap"
proof -
  from assms(1) obtain ts where ts: "end_times raises st heap = Some (Inr ts)"
    and tp: "tp = pick tie (min_end_events heap ts)"
    by (auto simp: pq_top_def bind_outcome_eq_ok)
  have "length ts = length heap" using ts by (rule end_times_length)
  then have "min_end_events heap ts \<noteq> []" using assms(2) by (rule min_end_events_nonempty)
  then have "tp \<in> set (min_end_events heap ts)" unfolding tp by (rule pick_mem)
  then show ?thesis using min_end_events_subset by auto
qed

text \<open>
  The two \<^verbatim>\<open>while\<close> loops over \<^verbatim>\<open>end_events_\<close> have the same body, \<^verbatim>\<open>pop_event\<close> on the top
  and then \<^verbatim>\<open>pop()\<close>. The loop inside the replay runs while the end time of the top is
  strictly less than the start time of the new event (\<open>limit = Some start\<close>); the
  cleanup loop after it runs until the queue is empty (\<open>limit = None\<close>). Each round
  removes one element, so the loop ends whenever \<^verbatim>\<open>pop_event\<close> returns.
\<close>

function pop_ends ::
  "bool \<Rightarrow> (rid list \<Rightarrow> rid) \<Rightarrow> time_t option \<Rightarrow> build_state \<Rightarrow> build_state outcome" where
  "pop_ends raises tie limit (st, stacks, end_events) =
     (if end_events = [] then ok (st, stacks, end_events)
      else bind_outcome (pq_top tie raises st end_events)
        (\<lambda>(top_event, top_end).
           if (case limit of None \<Rightarrow> True | Some start \<Rightarrow> top_end < start)
           then bind_outcome (pop_event raises (st, stacks) top_event)
                  (\<lambda>(st', stacks').
                     pop_ends raises tie limit (st', stacks', remove1 top_event end_events))
           else ok (st, stacks, end_events)))"
  by pat_completeness auto
termination
proof (relation "measure (\<lambda>(raises, tie, limit, st, stacks, end_events). length end_events)")
  show "wf (measure (\<lambda>(raises, tie, limit, st, stacks, end_events). length end_events))"
    by simp
next
  fix raises tie limit st stacks end_events x xa y xb xc z
  assume "end_events \<noteq> []" "pq_top tie raises st end_events = Some (Inr x)" "(xa, y) = x"
  then have "xa \<in> set end_events" using pq_top_mem by metis
  then show "((raises, tie, limit, xb, z, remove1 xa end_events),
              raises, tie, limit, st, stacks, end_events)
       \<in> measure (\<lambda>(raises, tie, limit, st, stacks, end_events). length end_events)"
    by (simp add: length_remove1) (cases end_events; simp)
qed

declare pop_ends.simps [simp del]

text \<open>
  The stack replay loop over \<^verbatim>\<open>sorted_events\<close>. The start time of an event never
  changes, so the bound of the inner loop is read once.
\<close>

fun replay ::
  "bool \<Rightarrow> (rid list \<Rightarrow> rid) \<Rightarrow> rid list \<Rightarrow> build_state \<Rightarrow> build_state outcome" where
  "replay raises tie [] s = ok s"
| "replay raises tie (event # events) s =
     bind_outcome (pop_ends raises tie (Some (start_time_ns (fst s event))) s)
       (\<lambda>s1. bind_outcome (push_event raises s1 event) (replay raises tie events))"

text \<open>\<^verbatim>\<open>build_tree\<close>: the replay, then the cleanup of the remaining exit events.\<close>

definition build_tree ::
  "bool \<Rightarrow> (rid list \<Rightarrow> rid) \<Rightarrow> rid list \<Rightarrow> store \<Rightarrow> store outcome" where
  "build_tree raises tie sorted_events st =
     bind_outcome (replay raises tie sorted_events (st, Map.empty, []))
       (\<lambda>s. bind_outcome (pop_ends raises tie None s)
          (\<lambda>(st', stacks', end_events'). ok st'))"

section \<open>The external-trace merge: \<^verbatim>\<open>TransferEvents::setParents\<close>\<close>

text \<open>
  A range-based \<^verbatim>\<open>for\<close> loop over a vector whose body may throw: the body is run on
  each element in order, and the loop stops at the first exception.
\<close>

fun for_each :: "('s \<Rightarrow> 'a \<Rightarrow> 's outcome) \<Rightarrow> 'a list \<Rightarrow> 's \<Rightarrow> 's outcome" where
  "for_each body [] s = ok s"
| "for_each body (x # xs) s = bind_outcome (body s x) (for_each body xs)"

text \<open>
  The model starts after \<^verbatim>\<open>extractEventsFromTrace\<close>: \<open>results\<close> is the vector
  \<^verbatim>\<open>results_\<close> with the events made from external activities appended, and the
  \<^verbatim>\<open>linked_activity_\<close> of every such event is set. \<^verbatim>\<open>flow_map\<close> maps a flow id to the
  event that starts the flow.
\<close>

type_synonym flow_map = "nat \<rightharpoonup> rid"

text \<open>
  The body of the first loop. \<^verbatim>\<open>flow_map.insert\<close> keeps the entry that is already there;
  without \<^verbatim>\<open>USE_ROCM\<close> a second start of the same flow fails the assertion, with
  \<^verbatim>\<open>USE_ROCM\<close> it is only logged. The warnings have no effect on the state.
\<close>

definition setParents_first ::
  "bool \<Rightarrow> store \<times> flow_map \<Rightarrow> rid \<Rightarrow> (store \<times> flow_map) outcome" where
  "setParents_first use_rocm s e =
     (case s of (st, flow_map) \<Rightarrow>
      case extra_fields (st e) of
        Kineto dur f_id f_type f_start lnk \<Rightarrow>
          bind_outcome
            (if f_type = kLinkAsyncCpuGpu \<and> f_start
             then (if flow_map f_id = None then ok (flow_map(f_id \<mapsto> e))
                   else if use_rocm then ok flow_map
                   else throw AssertionError)
             else ok flow_map)
            (\<lambda>flow_map'.
               if parent (st e) \<noteq> None then throw AssertionError
               else ok (st(e := (st e)\<lparr>parent := lnk\<rparr>), flow_map'))
      | _ \<Rightarrow> ok s)"

text \<open>The body of the second loop: the flow decides the parent, then the bookkeeping.\<close>

definition setParents_second :: "bool \<Rightarrow> flow_map \<Rightarrow> store \<Rightarrow> rid \<Rightarrow> store outcome" where
  "setParents_second raises flow_map st e =
     (case extra_fields (st e) of
        Kineto dur f_id f_type f_start lnk \<Rightarrow>
          let st1 = (case flow_map f_id of
                       Some flow_start_event \<Rightarrow>
                         if f_type = kLinkAsyncCpuGpu \<and> \<not> f_start
                         then st(e := (st e)\<lparr>parent := Some flow_start_event\<rparr>)
                         else st
                     | None \<Rightarrow> st)
          in (case parent (st1 e) of
                Some p \<Rightarrow>
                  mark_finished raises
                    (st1(p := (st1 p)\<lparr>children := children (st1 p) @ [e]\<rparr>)) e
              | None \<Rightarrow> ok st1)
      | _ \<Rightarrow> ok st)"

text \<open>
  \<^verbatim>\<open>setKinetoTID(r, parent)\<close> visits \<open>r\<close> and then calls itself on every child of \<open>r\<close>,
  in order, with \<open>r\<close> as the parent. The model keeps the calls that are still to be
  made in a list, the children of the node just visited in front: this is the order in
  which the recursion of the source visits the nodes. \<open>current_tid\<close> is
  \<^verbatim>\<open>at::RecordFunction::currentThreadId()\<close>. Nothing bounds the recursion, so the
  function is partial.
\<close>

partial_function (option) setKinetoTID ::
  "tid_t \<Rightarrow> store \<Rightarrow> (rid \<times> rid option) list \<Rightarrow> store outcome" where
  "setKinetoTID current_tid st work =
     (case work of
        [] \<Rightarrow> ok st
      | (r, parent_of_r) # rest \<Rightarrow>
          bind_outcome
            (if is_Kineto (extra_fields (st r))
             then (if start_tid (st r) \<noteq> noTID then throw AssertionError
                   else ok (st(r := (st r)\<lparr>start_tid :=
                              (case parent_of_r of
                                 Some p \<Rightarrow> start_tid (st p)
                               | None \<Rightarrow> current_tid)\<rparr>)))
             else ok st)
            (\<lambda>st1. setKinetoTID current_tid st1
                      (map (\<lambda>child. (child, Some r)) (children (st1 r)) @ rest)))"

declare setKinetoTID.simps [code]

text \<open>The body of the third loop.\<close>

definition setParents_third :: "tid_t \<Rightarrow> store \<Rightarrow> rid \<Rightarrow> store outcome" where
  "setParents_third current_tid st e =
     (if parent (st e) = None then setKinetoTID current_tid st [(e, None)] else ok st)"

definition setParents ::
  "bool \<Rightarrow> bool \<Rightarrow> tid_t \<Rightarrow> rid list \<Rightarrow> store \<Rightarrow> store outcome" where
  "setParents use_rocm raises current_tid results st =
     bind_outcome (for_each (setParents_first use_rocm) results (st, Map.empty))
       (\<lambda>(st1, flow_map).
          bind_outcome (for_each (setParents_second raises flow_map) results st1)
            (for_each (setParents_third current_tid) results))"

section \<open>Buffer identities: \<^verbatim>\<open>calculate_unique_tensor_ids\<close>\<close>

text \<open>
  \<^verbatim>\<open>TensorStoragePair\<close>. Its \<^verbatim>\<open>id_ref_\<close> is a reference to the \<^verbatim>\<open>id_\<close> of an input of an
  operation (the event and the position of the input) or to the \<^verbatim>\<open>id_\<close> of an
  allocation event. The null \<^verbatim>\<open>TensorImplAddress\<close> is 0.
\<close>

datatype id_ref = InputRef rid nat | AllocRef rid

record tensor_storage_pair =
  pair_impl :: nat
  pair_storage_id :: nat
  pair_id_ref :: id_ref

text \<open>
  Step 1. The state is \<^verbatim>\<open>current_id\<close>, \<^verbatim>\<open>live_storage\<close>, \<^verbatim>\<open>tensor_set\<close> and \<^verbatim>\<open>tensors\<close>.
  \<^verbatim>\<open>lookup\<close> returns the id of a live address, or gives the address a fresh id.
\<close>

type_synonym flatten_state = "nat \<times> (nat \<rightharpoonup> nat) \<times> nat set \<times> tensor_storage_pair list"

definition lookup :: "nat \<Rightarrow> nat \<times> (nat \<rightharpoonup> nat) \<Rightarrow> nat \<times> nat \<times> (nat \<rightharpoonup> nat)" where
  "lookup data_ptr s =
     (case s of (current_id, live_storage) \<Rightarrow>
      case live_storage data_ptr of
        Some sid \<Rightarrow> (sid, current_id, live_storage)
      | None \<Rightarrow> (current_id, current_id + 1, live_storage(data_ptr \<mapsto> current_id)))"

text \<open>The loop over \<^verbatim>\<open>torch_op.inputs_.tensor_metadata_\<close>; \<open>j\<close> is the position.\<close>

fun flatten_inputs ::
  "rid \<Rightarrow> nat \<Rightarrow> tensor_metadata option list \<Rightarrow> flatten_state \<Rightarrow> flatten_state" where
  "flatten_inputs r j [] s = s"
| "flatten_inputs r j (m # ms) (current_id, live_storage, tensor_set, tensors) =
     (case m of
        Some md \<Rightarrow>
          if impl md \<noteq> 0 \<and> data md \<noteq> 0
          then (case lookup (data md) (current_id, live_storage) of
                  (sid, current_id', live_storage') \<Rightarrow>
                    flatten_inputs r (Suc j) ms
                      (current_id', live_storage', insert sid tensor_set,
                       tensors @ [\<lparr>pair_impl = impl md, pair_storage_id = sid,
                                   pair_id_ref = InputRef r j\<rparr>]))
          else flatten_inputs r (Suc j) ms (current_id, live_storage, tensor_set, tensors)
      | None \<Rightarrow> flatten_inputs r (Suc j) ms (current_id, live_storage, tensor_set, tensors))"

text \<open>The visitor of step 1, with the erasure of a freed address.\<close>

definition flatten_result :: "store \<Rightarrow> flatten_state \<Rightarrow> rid \<Rightarrow> flatten_state" where
  "flatten_result st s r =
     (case extra_fields (st r) of
        TorchOp e_end fwd ins \<Rightarrow> flatten_inputs r 0 ins s
      | Allocation a_ptr a_size a_id \<Rightarrow>
          (case s of (current_id, live_storage, tensor_set, tensors) \<Rightarrow>
           case lookup a_ptr (current_id, live_storage) of
             (sid, current_id', live_storage') \<Rightarrow>
               (current_id',
                if a_size < 0 then live_storage'(a_ptr := None) else live_storage',
                tensor_set,
                tensors @ [\<lparr>pair_impl = 0, pair_storage_id = sid, pair_id_ref = AllocRef r\<rparr>]))
      | _ \<Rightarrow> s)"

text \<open>Step 1 before the pruning: the loop over \<^verbatim>\<open>sorted_results\<close>.\<close>

definition flatten :: "store \<Rightarrow> rid list \<Rightarrow> flatten_state" where
  "flatten st sorted_results = foldl (flatten_result st) (0, Map.empty, {}, []) sorted_results"

text \<open>
  Step 2, one round. \<^verbatim>\<open>same_group_set\<close> is a hash set of pairs; the model keeps its
  elements in a list without repetitions. Only the sorted list of the elements is used
  afterwards.
\<close>

definition same_group_step ::
  "(nat \<rightharpoonup> nat) \<times> (nat \<times> nat) list \<Rightarrow> tensor_storage_pair
   \<Rightarrow> (nat \<rightharpoonup> nat) \<times> (nat \<times> nat) list" where
  "same_group_step s t =
     (case s of (impl_map, same_group_set) \<Rightarrow>
      if pair_impl t = 0 then s
      else
        let (impl_map', first_id) =
              (case impl_map (pair_impl t) of
                 Some sid \<Rightarrow> (impl_map, sid)
               | None \<Rightarrow> (impl_map(pair_impl t \<mapsto> pair_storage_id t), pair_storage_id t))
        in (impl_map',
            List.insert (if first_id < pair_storage_id t then (first_id, pair_storage_id t)
                         else (pair_storage_id t, first_id)) same_group_set))"

text \<open>Step 3, one round over the sorted pairs.\<close>

definition coalesce_step ::
  "(nat \<rightharpoonup> nat) \<times> nat \<Rightarrow> nat \<times> nat \<Rightarrow> (nat \<rightharpoonup> nat) \<times> nat" where
  "coalesce_step s i =
     (case s of (id_map, current_id) \<Rightarrow>
      let (id_map1, current_id1, id_first) =
            (case id_map (fst i) of
               Some v \<Rightarrow> (id_map, current_id, v)
             | None \<Rightarrow> (id_map(fst i \<mapsto> current_id), current_id + 1, current_id))
      in (case id_map1 (snd i) of
            Some v \<Rightarrow> (id_map1, current_id1)
          | None \<Rightarrow> (id_map1(snd i \<mapsto> id_first), current_id1)))"

text \<open>The assignment through \<^verbatim>\<open>id_ref_\<close> of step 4.\<close>

definition set_id :: "id_ref \<Rightarrow> nat \<Rightarrow> store \<Rightarrow> store" where
  "set_id ref v st =
     (case ref of
        InputRef r j \<Rightarrow>
          st(r := (st r)\<lparr>extra_fields :=
            (case extra_fields (st r) of
               TorchOp e_end fwd ins \<Rightarrow>
                 TorchOp e_end fwd (ins[j := map_option (\<lambda>md. md\<lparr>id := Some v\<rparr>) (ins ! j)])
             | other \<Rightarrow> other)\<rparr>)
      | AllocRef r \<Rightarrow>
          st(r := (st r)\<lparr>extra_fields :=
            (case extra_fields (st r) of
               Allocation a_ptr a_size a_id \<Rightarrow> Allocation a_ptr a_size (Some v)
             | other \<Rightarrow> other)\<rparr>))"

text \<open>Step 4, one round. \<^verbatim>\<open>id_map.at\<close> throws when the key is missing.\<close>

definition write_back :: "(nat \<rightharpoonup> nat) \<Rightarrow> store \<Rightarrow> tensor_storage_pair \<Rightarrow> store outcome" where
  "write_back id_map st t =
     (case id_map (pair_storage_id t) of
        None \<Rightarrow> throw OutOfRange
      | Some v \<Rightarrow> ok (set_id (pair_id_ref t) v st))"

definition calculate_unique_tensor_ids :: "rid list \<Rightarrow> store \<Rightarrow> store outcome" where
  "calculate_unique_tensor_ids sorted_results st =
     (case flatten st sorted_results of
        (current_id, live_storage, tensor_set, all_tensors) \<Rightarrow>
          let tensors = filter (\<lambda>t. pair_storage_id t \<in> tensor_set) all_tensors;
              same_group_set = snd (foldl same_group_step (Map.empty, []) tensors);
              unique_pairs = sort same_group_set;
              id_map = fst (foldl coalesce_step (Map.empty, 0) unique_pairs)
          in for_each (write_back id_map) tensors st)"

section \<open>The end of \<^verbatim>\<open>RecordQueue::getRecords\<close>\<close>

text \<open>
  \<^verbatim>\<open>std::stable_sort\<close> with the comparison of the start times. A stable sort has one
  result, the sorted list in which events with equal keys keep their order; insertion
  sort computes it.
\<close>

definition stable_sort_by_start :: "store \<Rightarrow> rid list \<Rightarrow> rid list" where
  "stable_sort_by_start st out = sort_key (\<lambda>r. start_time_ns (st r)) out"

text \<open>
  \<^verbatim>\<open>getRecords\<close> from the merge of the external trace on: \<^verbatim>\<open>setParents\<close>, the stable
  sort, the buffer identities when shapes and memory are both recorded
  (\<open>with_tensor_ids\<close>), and the tree. The vector it returns is the sorted one; the
  model returns the store.
\<close>

definition collate ::
  "bool \<Rightarrow> bool \<Rightarrow> (rid list \<Rightarrow> rid) \<Rightarrow> tid_t \<Rightarrow> bool \<Rightarrow> rid list \<Rightarrow> store
   \<Rightarrow> store outcome" where
  "collate use_rocm raises tie current_tid with_tensor_ids out st =
     bind_outcome (setParents use_rocm raises current_tid out st)
       (\<lambda>st1. let sorted = stable_sort_by_start st1 out
              in bind_outcome
                   (if with_tensor_ids then calculate_unique_tensor_ids sorted st1 else ok st1)
                   (build_tree raises tie sorted))"

section \<open>Properties of the end time\<close>

text \<open>
  C7. An operation event whose end time is the unset sentinel, and which is finished and
  has a parent, reports the end time its parent reports, under the check that this
  value is not earlier than its own start time: when the check fails the call throws
  (if soft assertions raise) or falls back to the event's own start time.
\<close>

theorem endTimeNS_inherits_parent_end:
  assumes "extra_fields (st r) = TorchOp time_min fwd ins"
    and "finished (st r)"
    and "parent (st r) = Some p"
    and "endTimeNS raises st p = Some (Inr t)"
  shows "endTimeNS raises st r =
     (if start_time_ns (st r) \<le> t then Some (Inr t)
      else if raises then Some (Inl AssertionError)
      else Some (Inr (start_time_ns (st r))))"
  using assms
  by (subst endTimeNS.simps) (simp add: SOFT_ASSERT_def ok_def throw_def)

definition open_ended_parent :: result where
  "open_ended_parent = \<lparr>start_time_ns = 0, start_tid = 1, extra_fields = TorchOp 100 0 [],
     parent = None, children = [1], finished = True\<rparr>"

definition open_ended_child :: result where
  "open_ended_child = \<lparr>start_time_ns = 10, start_tid = 1,
     extra_fields = TorchOp time_min 0 [], parent = Some 0, children = [],
     finished = True\<rparr>"

definition open_ended_store :: store where
  "open_ended_store = (\<lambda>_. open_ended_parent)(1 := open_ended_child)"

lemma open_ended_parent_end: "endTimeNS False open_ended_store 0 = Some (Inr 100)"
  by (subst endTimeNS.simps)
     (simp add: open_ended_store_def open_ended_parent_def SOFT_ASSERT_def time_min_def ok_def)

theorem endTimeNS_inherits_parent_end_witness:
  "extra_fields (open_ended_store 1) = TorchOp time_min 0 []
   \<and> finished (open_ended_store 1)
   \<and> parent (open_ended_store 1) = Some 0
   \<and> endTimeNS False open_ended_store 0 = Some (Inr 100)
   \<and> endTimeNS False open_ended_store 1 = Some (Inr 100)"
  using endTimeNS_inherits_parent_end [of open_ended_store 1 0 "[]" 0 False 100]
    open_ended_parent_end
  by (simp add: open_ended_store_def open_ended_child_def)

section \<open>Properties of the correlation ids\<close>

lemma chunk_bound:
  fixes a idx K :: nat
  assumes "idx < K" "(a + 1) * K < N"
  shows "1 + K * a + idx < N"
proof -
  have "(a + 1) * K = K * a + K" by (simp add: algebra_simps)
  then show ?thesis using assms by linarith
qed

lemma unat_correlation_id:
  assumes "idx < K" "(unat c + 1) * K < 2 ^ 64"
  shows "unat (correlation_id (fst (EventBlock K c)) idx) = 1 + K * unat c + idx"
proof -
  have b: "1 + K * unat c + idx < 2 ^ LENGTH(64)"
    using chunk_bound[OF assms] by simp
  have "(word_of_nat (1 + K * unat c + idx) :: 64 word)
        = correlation_id (fst (EventBlock K c)) idx"
    by (simp add: correlation_id_def EventBlock_def)
  then show ?thesis using b by (rule of_nat_inverse)
qed

lemma correlation_id_inj:
  assumes "i < K" "i' < K" "(unat c + 1) * K < 2 ^ 64" "(unat c' + 1) * K < 2 ^ 64"
    and "correlation_id (fst (EventBlock K c)) i = correlation_id (fst (EventBlock K c')) i'"
  shows "c = c' \<and> i = i'"
proof -
  have e: "K * unat c + i = K * unat c' + i'"
    using unat_correlation_id[OF assms(1,3)] unat_correlation_id[OF assms(2,4)] assms(5)
    by simp
  have "(K * unat c + i) div K = unat c" "(K * unat c' + i') div K = unat c'"
    using assms(1,2) by simp_all
  then have "unat c = unat c'" using e by simp
  then show ?thesis using e by (simp add: word_unat_eq_iff)
qed

lemma make_blocks_nth:
  "j < n \<Longrightarrow> make_blocks K n c ! j = fst (EventBlock K (c + of_nat j))"
proof (induction n arbitrary: c j)
  case 0
  then show ?case by simp
next
  case (Suc n)
  then show ?case by (cases j) (auto simp: EventBlock_def algebra_simps)
qed

lemma counter_no_wrap:
  fixes c0 :: "64 word"
  assumes "(unat c0 + n) * K < 2 ^ 64" "m < n" "0 < K"
  shows "unat (c0 + of_nat m) = unat c0 + m"
    and "(unat (c0 + of_nat m) + 1) * K < 2 ^ 64"
proof -
  have "unat c0 + m + 1 \<le> unat c0 + n" using assms(2) by simp
  then have "(unat c0 + m + 1) * K \<le> (unat c0 + n) * K" by (rule mult_le_mono1)
  then have lt: "(unat c0 + m + 1) * K < 2 ^ 64" using assms(1) by linarith
  have "(unat c0 + m + 1) * 1 \<le> (unat c0 + m + 1) * K"
    using assms(3) by (intro mult_le_mono2) simp
  then have "unat c0 + m < 2 ^ LENGTH(64)" using lt by simp
  moreover have "(word_of_nat (unat c0 + m) :: 64 word) = c0 + of_nat m" by simp
  ultimately show u: "unat (c0 + of_nat m) = unat c0 + m" by (rule of_nat_inverse[rotated])
  show "(unat (c0 + of_nat m) + 1) * K < 2 ^ 64" using lt by (simp only: u)
qed

text \<open>
  C3. Within one session the blocks take successive values of the atomic counter, each
  block's base is \<open>1 + ChunkSize * counter\<close>, and an event's id is the base of its block
  plus its index in the block. Two distinct events (a different block, or a different
  index in the same block) have different ids, as long as the 64-bit arithmetic does
  not wrap around, that is while \<open>ChunkSize\<close> times the number of blocks ever made
  stays below \<open>2 ^ 64\<close>.
\<close>

theorem correlation_ids_distinct:
  assumes "(unat c0 + n) * ChunkSize < 2 ^ 64"
    and "j < n" and "j' < n"
    and "i < ChunkSize" and "i' < ChunkSize"
    and "(j, i) \<noteq> (j', i')"
  shows "correlation_id (make_blocks ChunkSize n c0 ! j) i
         \<noteq> correlation_id (make_blocks ChunkSize n c0 ! j') i'"
proof
  assume eq: "correlation_id (make_blocks ChunkSize n c0 ! j) i
              = correlation_id (make_blocks ChunkSize n c0 ! j') i'"
  have K: "0 < ChunkSize" using assms(4) by simp
  note a = counter_no_wrap[OF assms(1) assms(2) K]
  note b = counter_no_wrap[OF assms(1) assms(3) K]
  have eq': "correlation_id (fst (EventBlock ChunkSize (c0 + of_nat j))) i =
             correlation_id (fst (EventBlock ChunkSize (c0 + of_nat j'))) i'"
    using eq assms(2,3) by (simp add: make_blocks_nth)
  have "c0 + of_nat j = c0 + of_nat j' \<and> i = i'"
    by (rule correlation_id_inj[OF assms(4) assms(5) a(2) b(2) eq'])
  then have "unat (c0 + of_nat j) = unat (c0 + of_nat j')" "i = i'" by simp_all
  then have "j = j'" "i = i'" using a(1) b(1) by simp_all
  then show False using assms(6) by simp
qed

theorem correlation_ids_distinct_witness:
  "(unat (0 :: 64 word) + 2) * 1024 < 2 ^ 64
   \<and> (0::nat) < 2 \<and> (1::nat) < 2 \<and> (5::nat) < 1024
   \<and> ((0::nat), (5::nat)) \<noteq> (1, 5)
   \<and> correlation_id (make_blocks 1024 2 0 ! 0) 5
      \<noteq> correlation_id (make_blocks 1024 2 0 ! 1) 5"
  using correlation_ids_distinct [of 0 2 1024 0 1 5 5]
  by simp

section \<open>What the steps of the tree builder change\<close>

text \<open>
  The end time an event declares itself: the visitor of \<^verbatim>\<open>endTimeNS\<close> without the loan
  from the parent and without the final check.
\<close>

definition declared_end :: "result \<Rightarrow> time_t" where
  "declared_end r =
     (case extra_fields r of
        TorchOp e_end fwd ins \<Rightarrow> e_end
      | Backend e_end_us \<Rightarrow> e_end_us * 1000
      | Allocation a_ptr a_size a_id \<Rightarrow> start_time_ns r
      | OutOfMemory \<Rightarrow> start_time_ns r
      | PyCall e_end \<Rightarrow> e_end
      | PyCCall e_end \<Rightarrow> e_end
      | Kineto dur f_id f_type f_start lnk \<Rightarrow> start_time_ns r + dur * 1000)"

lemma endTimeNS_unfinished:
  "\<not> finished (st r) \<Longrightarrow> endTimeNS raises st r = ok (declared_end (st r))"
  by (subst endTimeNS.simps) (simp add: declared_end_def split: extra_fields.splits)

lemma endTimeNS_finished_ge:
  assumes "finished (st r)" "endTimeNS raises st r = Some (Inr v)"
  shows "start_time_ns (st r) \<le> v"
proof -
  from assms(2) obtain e b where
    "bind_outcome (SOFT_ASSERT raises (start_time_ns (st r) \<le> e))
       (\<lambda>valid. ok (if valid then e else start_time_ns (st r))) = Some (Inr v)"
    by (subst (asm) endTimeNS.simps) (auto simp: bind_outcome_eq_ok assms(1))
  then show ?thesis
    by (auto simp: SOFT_ASSERT_def bind_outcome_eq_ok split: if_splits)
qed

lemma mark_finished_ok:
  assumes "mark_finished raises st r = Some (Inr st')"
  shows "\<not> finished (st r)" and "st' = st(r := (st r)\<lparr>finished := True\<rparr>)"
  using assms
  by (auto simp: mark_finished_def Let_def bind_outcome_eq_ok split: if_splits)

definition finish_all :: "store \<Rightarrow> rid set \<Rightarrow> store" where
  "finish_all st F = (\<lambda>x. if x \<in> F then (st x)\<lparr>finished := True\<rparr> else st x)"

definition parent_closed :: "rid set \<Rightarrow> store \<Rightarrow> bool" where
  "parent_closed S st \<longleftrightarrow> (\<forall>x\<in>S. \<forall>p. parent (st x) = Some p \<longrightarrow> p \<in> S)"

lemma finish_all_fields [simp]:
  "parent (finish_all st F x) = parent (st x)"
  "children (finish_all st F x) = children (st x)"
  "start_time_ns (finish_all st F x) = start_time_ns (st x)"
  "start_tid (finish_all st F x) = start_tid (st x)"
  "extra_fields (finish_all st F x) = extra_fields (st x)"
  "finished (finish_all st F x) \<longleftrightarrow> x \<in> F \<or> finished (st x)"
  by (simp_all add: finish_all_def)

lemma finish_all_empty [simp]: "finish_all st {} = st"
  by (simp add: finish_all_def)

lemma finish_all_upd:
  "finish_all (st(r := (st r)\<lparr>finished := True\<rparr>)) F = finish_all st (insert r F)"
  by (auto simp: finish_all_def fun_eq_iff)

lemma finish_all_one:
  "st(r := (st r)\<lparr>finished := True\<rparr>) = finish_all st {r}"
  by (auto simp: finish_all_def fun_eq_iff)

lemma finish_all_twice: "finish_all (finish_all st F) G = finish_all st (F \<union> G)"
  by (auto simp: finish_all_def fun_eq_iff)

lemma parent_closed_finish_all [simp]:
  "parent_closed S (finish_all st F) = parent_closed S st"
  by (simp add: parent_closed_def)

lemma pop_event_loop_effect_aux:
  assumes "pop_event_loop raises st frame event = Some y"
  shows "\<forall>st'. y = Inr st' \<longrightarrow> frame \<in> S \<longrightarrow> parent_closed S st
           \<longrightarrow> (\<exists>F. F \<subseteq> S \<and> st' = finish_all st F)"
proof (rule pop_event_loop.raw_induct[where P = "\<lambda>raises st frame event y.
           \<forall>st'. y = Inr st' \<longrightarrow> frame \<in> S \<longrightarrow> parent_closed S st
           \<longrightarrow> (\<exists>F. F \<subseteq> S \<and> st' = finish_all st F)", OF _ assms], goal_cases)
  case (1 loop raises st frame event y)
  show ?case
  proof (intro allI impI)
    fix st'
    assume y: "y = Inr st'" and fr: "frame \<in> S" and cl: "parent_closed S st"
    show "\<exists>F. F \<subseteq> S \<and> st' = finish_all st F"
    proof (cases "frame = event")
      case True
      then have "st' = st" using 1(2) y by simp
      then show ?thesis by (intro exI[of _ "{}"]) simp
    next
      case False
      with 1(2) y obtain st1 where
        mf: "mark_finished raises st frame = Some (Inr st1)" and
        rest: "(case parent (st1 frame) of None \<Rightarrow> throw AssertionError
               | Some p \<Rightarrow> loop raises st1 p event) = Some (Inr st')"
        by (auto simp: bind_outcome_eq_ok)
      have st1: "st1 = finish_all st {frame}"
        using mark_finished_ok(2)[OF mf] by (simp add: finish_all_one)
      from rest obtain p where p: "parent (st1 frame) = Some p"
        and rec: "loop raises st1 p event = Some (Inr st')"
        by (auto split: option.splits)
      have "p \<in> S" using p fr cl by (auto simp: st1 parent_closed_def)
      moreover have "parent_closed S st1" using cl by (simp add: st1)
      ultimately obtain F where F: "F \<subseteq> S" "st' = finish_all st1 F"
        using 1(1)[OF rec] by blast
      then have "st' = finish_all st ({frame} \<union> F)" by (simp add: st1 finish_all_twice)
      then show ?thesis using F(1) fr by (intro exI[of _ "{frame} \<union> F"]) simp
    qed
  qed
qed

lemma pop_event_loop_effect:
  assumes "pop_event_loop raises st frame event = Some (Inr st')"
    and "frame \<in> S" and "parent_closed S st"
  obtains F where "F \<subseteq> S" "st' = finish_all st F"
  using pop_event_loop_effect_aux[OF assms(1)] assms(2,3) by blast

lemma pop_event_effect:
  assumes "pop_event raises (st, stacks) event = Some (Inr (st', stacks'))"
    and "event \<in> S" and "ran stacks \<subseteq> S" and "parent_closed S st"
  shows "\<exists>F. F \<subseteq> S \<and> st' = finish_all st F" and "finished (st' event)"
    and "ran stacks' \<subseteq> S"
proof -
  have "(\<exists>F. F \<subseteq> S \<and> st' = finish_all st F) \<and> finished (st' event) \<and> ran stacks' \<subseteq> S"
  proof (cases "finished (st event)")
    case True
    then have "st' = st" "stacks' = stacks" using assms(1) by (auto simp: pop_event_def)
    then show ?thesis using True assms(3) by (auto intro: exI[of _ "{}"])
  next
    case False
    with assms(1) obtain frame st1 st2 where
      fr: "stacks (start_tid (st event)) = Some frame" and
      lp: "pop_event_loop raises st frame event = Some (Inr st1)" and
      mf: "mark_finished raises st1 event = Some (Inr st2)" and
      res: "st' = st2"
        "stacks' = (case parent (st2 event) of
                     Some new_frame \<Rightarrow> (stacks(start_tid (st event) := None))(start_tid (st event) \<mapsto> new_frame)
                   | None \<Rightarrow> stacks(start_tid (st event) := None))"
      by (auto simp: pop_event_def Let_def bind_outcome_eq_ok split: option.splits)
    have "frame \<in> S" using fr assms(3) by (auto simp: ran_def)
    from lp this assms(4) obtain F where F: "F \<subseteq> S" "st1 = finish_all st F"
      by (rule pop_event_loop_effect)
    have st2: "st2 = finish_all st (F \<union> {event})"
      using mark_finished_ok(2)[OF mf] by (simp add: finish_all_one F(2) finish_all_twice)
    have ran_del: "ran (stacks(start_tid (st event) := None)) \<subseteq> S"
      using assms(3) by (auto simp: ran_def split: if_splits)
    have "ran stacks' \<subseteq> S"
    proof (cases "parent (st2 event)")
      case None
      then show ?thesis using res(2) ran_del by simp
    next
      case (Some np)
      then have "np \<in> S" using assms(2,4) by (auto simp: st2 parent_closed_def)
      then show ?thesis using res(2) Some assms(3) by (auto simp: ran_def split: if_splits)
    qed
    then show ?thesis using st2 res(1) F(1) assms(2)
      by (auto intro: exI[of _ "F \<union> {event}"])
  qed
  then show "\<exists>F. F \<subseteq> S \<and> st' = finish_all st F" and "finished (st' event)"
    and "ran stacks' \<subseteq> S" by simp_all
qed


definition skips :: "store \<Rightarrow> rid \<Rightarrow> bool" where
  "skips st x \<longleftrightarrow> is_Kineto (extra_fields (st x)) \<and> finished (st x)"

definition opens :: "store \<Rightarrow> rid \<Rightarrow> bool" where
  "opens st x \<longleftrightarrow> \<not> skips st x \<and>
     (declared_end (st x) > start_time_ns (st x) \<or> declared_end (st x) = time_min)"

definition parent_it_of :: "store \<Rightarrow> stacks \<Rightarrow> rid \<Rightarrow> rid option" where
  "parent_it_of st stacks event =
     (case stacks (start_tid (st event)) of
        Some p \<Rightarrow> Some p
      | None \<Rightarrow> (if fwd_tid_of (extra_fields (st event)) \<noteq> 0
                 then stacks (fwd_tid_of (extra_fields (st event))) else None))"

definition attach :: "store \<Rightarrow> rid \<Rightarrow> rid option \<Rightarrow> store" where
  "attach st event parent_it =
     (case parent_it of
        Some p \<Rightarrow>
          (let st' = st(event := (st event)\<lparr>parent := Some p\<rparr>)
           in st'(p := (st' p)\<lparr>children := children (st' p) @ [event]\<rparr>))
      | None \<Rightarrow> st)"

lemma parent_it_of_ran: "parent_it_of st stacks e = Some p \<Longrightarrow> p \<in> ran stacks"
  by (auto simp: parent_it_of_def ran_def split: option.splits if_splits)

lemma attach_fields [simp]:
  "start_time_ns (attach st e pit x) = start_time_ns (st x)"
  "start_tid (attach st e pit x) = start_tid (st x)"
  "extra_fields (attach st e pit x) = extra_fields (st x)"
  "finished (attach st e pit x) = finished (st x)"
  by (auto simp: attach_def Let_def split: option.splits)

lemma attach_parent:
  "parent (attach st e pit x) = (if x = e \<and> pit \<noteq> None then pit else parent (st x))"
  by (auto simp: attach_def Let_def split: option.splits)

lemma attach_children:
  "children (attach st e pit x) =
     (if pit = Some x then children (st x) @ [e] else children (st x))"
  by (auto simp: attach_def Let_def split: option.splits)

lemma attach_other:
  "x \<noteq> e \<Longrightarrow> pit \<noteq> Some x \<Longrightarrow> attach st e pit x = st x"
  by (auto simp: attach_def Let_def split: option.splits)

lemma declared_end_attach [simp]: "declared_end (attach st e pit x) = declared_end (st x)"
  by (simp add: declared_end_def split: extra_fields.splits)

lemma push_event_alt:
  "push_event raises (st, stacks, heap) e =
     (if is_Kineto (extra_fields (st e)) \<and> finished (st e) then ok (st, stacks, heap)
      else if parent (st e) \<noteq> None then throw AssertionError
      else if \<exists>child \<in> set (children (st e)). \<not> finished (st child)
        then throw AssertionError
      else if finished (st e) then throw AssertionError
      else bind_outcome (endTimeNS raises (attach st e (parent_it_of st stacks e)) e)
             (\<lambda>t. if t > start_time_ns (st e)
                   then ok (attach st e (parent_it_of st stacks e),
                            stacks(start_tid (st e) \<mapsto> e), heap @ [e])
                  else if t = time_min
                   then ok (attach st e (parent_it_of st stacks e),
                            stacks(start_tid (st e) \<mapsto> e), heap)
                  else bind_outcome
                         (mark_finished raises (attach st e (parent_it_of st stacks e)) e)
                         (\<lambda>st2. ok (st2, stacks, heap))))"
  by (cases "stacks (start_tid (st e))"; cases "fwd_tid_of (extra_fields (st e)) = 0";
      cases "stacks (fwd_tid_of (extra_fields (st e)))")
     (simp_all add: push_event_def attach_def parent_it_of_def Let_def cong: if_cong)

lemma push_event_skips:
  assumes "push_event raises (st, stacks, heap) e = Some (Inr s')" "skips st e"
  shows "s' = (st, stacks, heap)"
  using assms by (simp add: push_event_def skips_def)

lemma push_event_effect:
  assumes "push_event raises (st, stacks, heap) e = Some (Inr (st', stacks', heap'))"
    and "\<not> skips st e"
  shows "parent (st e) = None" and "\<not> finished (st e)"
    and "opens st e \<Longrightarrow> st' = attach st e (parent_it_of st stacks e)
           \<and> stacks' = stacks(start_tid (st e) \<mapsto> e)
           \<and> (heap' = heap @ [e] \<or> heap' = heap)"
    and "\<not> opens st e \<Longrightarrow>
           st' = finish_all (attach st e (parent_it_of st stacks e)) {e}
           \<and> stacks' = stacks \<and> heap' = heap"
proof -
  let ?st1 = "attach st e (parent_it_of st stacks e)"
  from assms have ns: "\<not> (is_Kineto (extra_fields (st e)) \<and> finished (st e))"
    by (simp add: skips_def)
  from assms(1) ns show p: "parent (st e) = None"
    by (auto simp: push_event_alt split: if_splits)
  from assms(1) ns show f: "\<not> finished (st e)"
    by (auto simp: push_event_alt split: if_splits)
  have e1: "endTimeNS raises ?st1 e = ok (declared_end (st e))"
    using f by (simp add: endTimeNS_unfinished)
  have body: "(if declared_end (st e) > start_time_ns (st e)
         then ok (?st1, stacks(start_tid (st e) \<mapsto> e), heap @ [e])
         else if declared_end (st e) = time_min
         then ok (?st1, stacks(start_tid (st e) \<mapsto> e), heap)
         else bind_outcome (mark_finished raises ?st1 e) (\<lambda>st2. ok (st2, stacks, heap)))
       = Some (Inr (st', stacks', heap'))"
    using assms(1) ns p f
    by (simp add: push_event_alt e1 split: if_splits)
  show "opens st e \<Longrightarrow> st' = ?st1 \<and> stacks' = stacks(start_tid (st e) \<mapsto> e)
           \<and> (heap' = heap @ [e] \<or> heap' = heap)"
    using body assms(2) by (auto simp: opens_def split: if_splits)
  show "\<not> opens st e \<Longrightarrow> st' = finish_all ?st1 {e} \<and> stacks' = stacks \<and> heap' = heap"
  proof -
    assume no: "\<not> opens st e"
    then have "bind_outcome (mark_finished raises ?st1 e) (\<lambda>st2. ok (st2, stacks, heap))
       = Some (Inr (st', stacks', heap'))"
      using body assms(2) by (auto simp: opens_def split: if_splits)
    then obtain st2 where mf: "mark_finished raises ?st1 e = Some (Inr st2)"
      and r: "ok (st2, stacks, heap) = Some (Inr (st', stacks', heap'))"
      unfolding bind_outcome_eq_ok by blast
    from r have "st' = st2" "stacks' = stacks" "heap' = heap" by simp_all
    moreover have "st2 = finish_all ?st1 {e}"
      using mark_finished_ok(2)[OF mf] by (simp only: finish_all_one)
    ultimately show ?thesis by simp
  qed
qed


lemma push_event_summary:
  assumes "push_event raises (st, stacks, heap) e = Some (Inr (st', stacks', heap'))"
    and "\<not> skips st e"
  defines "pit \<equiv> parent_it_of st stacks e"
  shows "parent (st e) = None" and "\<not> finished (st e)"
    and "\<And>x. parent (st' x) = (if x = e \<and> pit \<noteq> None then pit else parent (st x))"
    and "\<And>x. children (st' x) = (if pit = Some x then children (st x) @ [e] else children (st x))"
    and "\<And>x. finished (st' x) \<longleftrightarrow> finished (st x) \<or> (x = e \<and> \<not> opens st e)"
    and "\<And>x. start_time_ns (st' x) = start_time_ns (st x)"
    and "\<And>x. start_tid (st' x) = start_tid (st x)"
    and "\<And>x. extra_fields (st' x) = extra_fields (st x)"
    and "\<And>x. x \<noteq> e \<Longrightarrow> pit \<noteq> Some x \<Longrightarrow> st' x = st x"
    and "ran stacks' \<subseteq> ran stacks \<union> (if opens st e then {e} else {})"
    and "set heap' \<subseteq> set heap \<union> (if opens st e then {e} else {})"
proof -
  note eff = push_event_effect[OF assms(1,2)]
  show "parent (st e) = None" "\<not> finished (st e)" by (rule eff(1), rule eff(2))
  have st': "st' = (if opens st e then attach st e pit else finish_all (attach st e pit) {e})"
    using eff(3,4) by (auto simp: pit_def)
  show "\<And>x. parent (st' x) = (if x = e \<and> pit \<noteq> None then pit else parent (st x))"
    by (auto simp: st' attach_parent)
  show "\<And>x. children (st' x) = (if pit = Some x then children (st x) @ [e] else children (st x))"
    by (simp add: st' attach_children)
  show "\<And>x. finished (st' x) \<longleftrightarrow> finished (st x) \<or> (x = e \<and> \<not> opens st e)"
    by (auto simp: st')
  show "\<And>x. start_time_ns (st' x) = start_time_ns (st x)" by (simp add: st')
  show "\<And>x. start_tid (st' x) = start_tid (st x)" by (simp add: st')
  show "\<And>x. extra_fields (st' x) = extra_fields (st x)" by (simp add: st')
  show "\<And>x. x \<noteq> e \<Longrightarrow> pit \<noteq> Some x \<Longrightarrow> st' x = st x"
    by (simp add: st' attach_other finish_all_def)
  show "ran stacks' \<subseteq> ran stacks \<union> (if opens st e then {e} else {})"
    using eff(3,4) by (cases "opens st e") (auto simp: ran_def split: if_splits)
  show "set heap' \<subseteq> set heap \<union> (if opens st e then {e} else {})"
    using eff(3,4) by (cases "opens st e") auto
qed

definition opened :: "store \<Rightarrow> rid list \<Rightarrow> rid set" where
  "opened st0 done = {x \<in> set done. opens st0 x}"

lemma opened_mono: "set as \<subseteq> set bs \<Longrightarrow> opened st0 as \<subseteq> opened st0 bs"
  by (auto simp: opened_def)

lemma opened_snoc: "opened st0 (done @ [e]) = opened st0 done \<union> (if opens st0 e then {e} else {})"
  by (auto simp: opened_def)

lemma openedD: "x \<in> opened st0 done \<Longrightarrow> x \<in> set done \<and> opens st0 x \<and> \<not> skips st0 x"
  by (auto simp: opened_def opens_def)

definition replay_inv :: "store \<Rightarrow> rid list \<Rightarrow> store \<Rightarrow> stacks \<Rightarrow> rid list \<Rightarrow> bool" where
  "replay_inv st0 done st stacks heap \<longleftrightarrow>
     (\<forall>x. start_time_ns (st x) = start_time_ns (st0 x) \<and> start_tid (st x) = start_tid (st0 x)
          \<and> extra_fields (st x) = extra_fields (st0 x)
          \<and> (finished (st0 x) \<longrightarrow> finished (st x))) \<and>
     (\<forall>x. x \<notin> set done \<or> skips st0 x \<longrightarrow> st x = st0 x) \<and>
     ran stacks \<subseteq> opened st0 done \<and> set heap \<subseteq> opened st0 done \<and>
     (\<forall>as x bs p. done = as @ x # bs \<longrightarrow> \<not> skips st0 x \<longrightarrow> parent (st x) = Some p
          \<longrightarrow> p \<in> opened st0 as) \<and>
     (\<forall>p. children (st p) = children (st0 p)
            @ filter (\<lambda>x. \<not> skips st0 x \<and> parent (st x) = Some p) done) \<and>
     (\<forall>x \<in> set done. \<not> skips st0 x \<longrightarrow> \<not> opens st0 x \<longrightarrow> finished (st x))"

lemma replay_inv_init: "replay_inv st0 [] st0 Map.empty []"
  by (simp add: replay_inv_def)

lemma replay_inv_fields:
  assumes "replay_inv st0 done st stacks heap"
  shows "start_time_ns (st x) = start_time_ns (st0 x)" "start_tid (st x) = start_tid (st0 x)"
    "extra_fields (st x) = extra_fields (st0 x)" "finished (st0 x) \<Longrightarrow> finished (st x)"
  using assms by (simp_all add: replay_inv_def)

lemma replay_inv_same:
  assumes "replay_inv st0 done st stacks heap" "x \<notin> set done \<or> skips st0 x"
  shows "st x = st0 x"
  using assms by (simp add: replay_inv_def)

lemma replay_inv_stacks:
  assumes "replay_inv st0 done st stacks heap"
  shows "ran stacks \<subseteq> opened st0 done" "set heap \<subseteq> opened st0 done"
  using assms by (simp_all add: replay_inv_def)

lemma replay_inv_parent:
  assumes "replay_inv st0 done st stacks heap" "done = as @ x # bs" "\<not> skips st0 x"
    "parent (st x) = Some p"
  shows "p \<in> opened st0 as"
  using assms unfolding replay_inv_def by blast

lemma replay_inv_children:
  assumes "replay_inv st0 done st stacks heap"
  shows "children (st p) = children (st0 p)
            @ filter (\<lambda>x. \<not> skips st0 x \<and> parent (st x) = Some p) done"
  using assms by (simp add: replay_inv_def)

lemma replay_inv_closed_now:
  assumes "replay_inv st0 done st stacks heap" "x \<in> set done" "\<not> skips st0 x" "\<not> opens st0 x"
  shows "finished (st x)"
  using assms by (simp add: replay_inv_def)

lemma replay_inv_parent_closed:
  assumes "replay_inv st0 done st stacks heap"
  shows "parent_closed (opened st0 done) st"
  unfolding parent_closed_def
proof (intro ballI allI impI)
  fix x p assume x: "x \<in> opened st0 done" and p: "parent (st x) = Some p"
  from x have "x \<in> set done" "\<not> skips st0 x" by (auto dest: openedD)
  then obtain as bs where d: "done = as @ x # bs" by (auto dest: split_list)
  have "p \<in> opened st0 as" by (rule replay_inv_parent[OF assms d \<open>\<not> skips st0 x\<close> p])
  moreover have "opened st0 as \<subseteq> opened st0 done" by (rule opened_mono) (auto simp: d)
  ultimately show "p \<in> opened st0 done" by auto
qed

lemma replay_inv_finish_all:
  assumes inv: "replay_inv st0 done st stacks heap"
    and F: "F \<subseteq> opened st0 done"
    and s: "ran stacks' \<subseteq> opened st0 done" and h: "set heap' \<subseteq> opened st0 done"
  shows "replay_inv st0 done (finish_all st F) stacks' heap'"
proof -
  have same: "finish_all st F x = st0 x" if "x \<notin> set done \<or> skips st0 x" for x
  proof -
    have "x \<notin> F" using that F by (auto dest: openedD)
    then show ?thesis using replay_inv_same[OF inv that] by (simp add: finish_all_def)
  qed
  show ?thesis
    unfolding replay_inv_def
  proof (intro conjI)
    show "\<forall>x. start_time_ns (finish_all st F x) = start_time_ns (st0 x) \<and>
        start_tid (finish_all st F x) = start_tid (st0 x) \<and>
        extra_fields (finish_all st F x) = extra_fields (st0 x) \<and>
        (finished (st0 x) \<longrightarrow> finished (finish_all st F x))"
      using replay_inv_fields[OF inv] by simp
    show "\<forall>x. x \<notin> set done \<or> skips st0 x \<longrightarrow> finish_all st F x = st0 x"
      using same by blast
    show "ran stacks' \<subseteq> opened st0 done" by (rule s)
    show "set heap' \<subseteq> opened st0 done" by (rule h)
    show "\<forall>as x bs p. done = as @ x # bs \<longrightarrow> \<not> skips st0 x \<longrightarrow>
       parent (finish_all st F x) = Some p \<longrightarrow> p \<in> opened st0 as"
      using replay_inv_parent[OF inv] by simp
    show "\<forall>p. children (finish_all st F p) = children (st0 p) @
        filter (\<lambda>x. \<not> skips st0 x \<and> parent (finish_all st F x) = Some p) done"
      using replay_inv_children[OF inv] by simp
    show "\<forall>x\<in>set done. \<not> skips st0 x \<longrightarrow> \<not> opens st0 x \<longrightarrow> finished (finish_all st F x)"
      using replay_inv_closed_now[OF inv] by simp
  qed
qed

lemma pop_event_inv:
  assumes inv: "replay_inv st0 done st stacks heap"
    and ev: "event \<in> set heap"
    and pop: "pop_event raises (st, stacks) event = Some (Inr (st', stacks'))"
  shows "replay_inv st0 done st' stacks' (remove1 event heap)" and "finished (st' event)"
proof -
  let ?S = "opened st0 done"
  have e: "event \<in> ?S" using ev replay_inv_stacks(2)[OF inv] by auto
  note eff = pop_event_effect[OF pop e replay_inv_stacks(1)[OF inv] replay_inv_parent_closed[OF inv]]
  from eff(1) obtain F where F: "F \<subseteq> ?S" "st' = finish_all st F" by blast
  have "set (remove1 event heap) \<subseteq> ?S"
    using replay_inv_stacks(2)[OF inv] set_remove1_subset[of event heap] by blast
  then show "replay_inv st0 done st' stacks' (remove1 event heap)"
    unfolding F(2) by (intro replay_inv_finish_all[OF inv F(1) eff(3)])
  show "finished (st' event)" by (rule eff(2))
qed

lemma pop_ends_inv:
  assumes "pop_ends raises tie limit (st, stacks, heap) = Some (Inr (st', stacks', heap'))"
    and "replay_inv st0 done st stacks heap"
  shows "replay_inv st0 done st' stacks' heap'"
  using assms
proof (induction raises tie limit "(st, stacks, heap)" arbitrary: st stacks heap
    rule: pop_ends.induct)
  case (1 raises tie limit st stacks heap)
  show ?case
  proof (cases "heap = []")
    case True
    then show ?thesis using "1.prems" by (simp add: pop_ends.simps)
  next
    case False
    with "1.prems"(1) obtain tp t where
      top: "pq_top tie raises st heap = Some (Inr (tp, t))" and
      rest: "(if (case limit of None \<Rightarrow> True | Some start \<Rightarrow> t < start)
           then bind_outcome (pop_event raises (st, stacks) tp)
                  (\<lambda>(st', stacks'). pop_ends raises tie limit (st', stacks', remove1 tp heap))
           else ok (st, stacks, heap)) = Some (Inr (st', stacks', heap'))"
      by (subst (asm) pop_ends.simps) (auto simp: bind_outcome_eq_ok)
    show ?thesis
    proof (cases "case limit of None \<Rightarrow> True | Some start \<Rightarrow> t < start")
      case c: True
      with rest obtain st1 stacks1 where
        pop: "pop_event raises (st, stacks) tp = Some (Inr (st1, stacks1))" and
        rec: "pop_ends raises tie limit (st1, stacks1, remove1 tp heap)
              = Some (Inr (st', stacks', heap'))"
        by (auto simp: bind_outcome_eq_ok)
      have mem: "tp \<in> set heap" by (rule pq_top_mem[OF top False])
      have "replay_inv st0 done st1 stacks1 (remove1 tp heap)"
        by (rule pop_event_inv(1)[OF "1.prems"(2) mem pop])
      with "1.hyps"[OF False top refl c pop refl rec] show ?thesis .
    next
      case False
      with rest show ?thesis using "1.prems"(2) by simp
    qed
  qed
qed

lemma push_event_inv:
  assumes inv: "replay_inv st0 done st stacks heap"
    and new: "e \<notin> set done"
    and push: "push_event raises (st, stacks, heap) e = Some (Inr (st', stacks', heap'))"
  shows "replay_inv st0 (done @ [e]) st' stacks' heap'"
proof -
  have ste: "st e = st0 e" using replay_inv_same[OF inv] new by simp
  have sk: "skips st e = skips st0 e" and op: "opens st e = opens st0 e"
    by (simp_all add: skips_def opens_def ste)
  have sub: "opened st0 done \<subseteq> opened st0 (done @ [e])" by (auto simp: opened_snoc)
  have decomp: "as = done \<and> x = e \<and> bs = [] \<or> (\<exists>bs'. bs = bs' @ [e] \<and> done = as @ x # bs')"
    if "done @ [e] = as @ x # bs" for as x bs
    using that by (cases bs rule: rev_cases) auto
  show ?thesis
  proof (cases "skips st0 e")
    case True
    then have same: "st' = st" "stacks' = stacks" "heap' = heap"
      using push_event_skips[OF push] sk by simp_all
    show ?thesis
      unfolding replay_inv_def same
    proof (intro conjI)
      show "\<forall>x. start_time_ns (st x) = start_time_ns (st0 x) \<and> start_tid (st x) = start_tid (st0 x)
          \<and> extra_fields (st x) = extra_fields (st0 x) \<and> (finished (st0 x) \<longrightarrow> finished (st x))"
        using replay_inv_fields[OF inv] by simp
      show "\<forall>x. x \<notin> set (done @ [e]) \<or> skips st0 x \<longrightarrow> st x = st0 x"
        using replay_inv_same[OF inv] by auto
      show "ran stacks \<subseteq> opened st0 (done @ [e])" "set heap \<subseteq> opened st0 (done @ [e])"
        using replay_inv_stacks[OF inv] sub by auto
      show "\<forall>as x bs p. done @ [e] = as @ x # bs \<longrightarrow> \<not> skips st0 x \<longrightarrow>
          parent (st x) = Some p \<longrightarrow> p \<in> opened st0 as"
      proof (intro allI impI)
        fix as x bs p
        assume d: "done @ [e] = as @ x # bs" and x: "\<not> skips st0 x" "parent (st x) = Some p"
        from decomp[OF d] x(1) True obtain bs' where "done = as @ x # bs'" by auto
        then show "p \<in> opened st0 as" using replay_inv_parent[OF inv _ x] by simp
      qed
      show "\<forall>p. children (st p) = children (st0 p) @
          filter (\<lambda>x. \<not> skips st0 x \<and> parent (st x) = Some p) (done @ [e])"
        using replay_inv_children[OF inv] True by simp
      show "\<forall>x\<in>set (done @ [e]). \<not> skips st0 x \<longrightarrow> \<not> opens st0 x \<longrightarrow> finished (st x)"
        using replay_inv_closed_now[OF inv] True by auto
    qed
  next
    case False
    define pit where "pit = parent_it_of st stacks e"
    have nsk: "\<not> skips st e" using False sk by simp
    note sm = push_event_summary[OF push nsk, folded pit_def]
    have pit: "p \<in> opened st0 done" if "pit = Some p" for p
      using that parent_it_of_ran[of st stacks e p] replay_inv_stacks(1)[OF inv]
      by (auto simp: pit_def)
    have pit_ne: "pit \<noteq> Some e" using pit new by (auto dest: openedD)
    have old: "st' x = st x" if "x \<notin> set (done @ [e]) \<or> skips st0 x" for x
    proof -
      have "x \<noteq> e" using that False by auto
      moreover have "pit \<noteq> Some x" using that pit by (auto dest: openedD)
      ultimately show ?thesis by (rule sm(9))
    qed
    have par_old: "parent (st' x) = parent (st x)" if "x \<in> set done" for x
      using that new by (auto simp: sm(3))
    show ?thesis
      unfolding replay_inv_def
    proof (intro conjI)
      show "\<forall>x. start_time_ns (st' x) = start_time_ns (st0 x) \<and> start_tid (st' x) = start_tid (st0 x)
          \<and> extra_fields (st' x) = extra_fields (st0 x) \<and> (finished (st0 x) \<longrightarrow> finished (st' x))"
        using replay_inv_fields[OF inv] by (simp add: sm(5-8))
      show "\<forall>x. x \<notin> set (done @ [e]) \<or> skips st0 x \<longrightarrow> st' x = st0 x"
      proof (intro allI impI)
        fix x assume x: "x \<notin> set (done @ [e]) \<or> skips st0 x"
        then have "x \<notin> set done \<or> skips st0 x" by auto
        then show "st' x = st0 x" using old[OF x] replay_inv_same[OF inv] by simp
      qed
      show "ran stacks' \<subseteq> opened st0 (done @ [e])"
        using sm(10) replay_inv_stacks(1)[OF inv] by (auto simp: opened_snoc op split: if_splits)
      show "set heap' \<subseteq> opened st0 (done @ [e])"
        using sm(11) replay_inv_stacks(2)[OF inv] by (auto simp: opened_snoc op split: if_splits)
      show "\<forall>as x bs p. done @ [e] = as @ x # bs \<longrightarrow> \<not> skips st0 x \<longrightarrow>
          parent (st' x) = Some p \<longrightarrow> p \<in> opened st0 as"
      proof (intro allI impI)
        fix as x bs p
        assume d: "done @ [e] = as @ x # bs" and x: "\<not> skips st0 x" "parent (st' x) = Some p"
        from decomp[OF d] show "p \<in> opened st0 as"
        proof (elim disjE conjE exE)
          assume a: "as = done" "x = e" "bs = []"
          then have "pit = Some p" using x(2) sm(1) by (auto simp: sm(3) split: if_splits)
          then show ?thesis using pit a by simp
        next
          fix bs' assume b: "bs = bs' @ [e]" "done = as @ x # bs'"
          then have "parent (st x) = Some p" using x(2) par_old[of x] by simp
          then show ?thesis using replay_inv_parent[OF inv b(2) x(1)] by simp
        qed
      qed
      show "\<forall>p. children (st' p) = children (st0 p) @
          filter (\<lambda>x. \<not> skips st0 x \<and> parent (st' x) = Some p) (done @ [e])"
      proof
        fix p
        have f: "filter (\<lambda>x. \<not> skips st0 x \<and> parent (st' x) = Some p) done
               = filter (\<lambda>x. \<not> skips st0 x \<and> parent (st x) = Some p) done"
          by (rule filter_cong) (simp_all add: par_old)
        have pe: "parent (st' e) = Some p \<longleftrightarrow> pit = Some p"
          using sm(1) by (auto simp: sm(3))
        show "children (st' p) = children (st0 p) @
          filter (\<lambda>x. \<not> skips st0 x \<and> parent (st' x) = Some p) (done @ [e])"
          using replay_inv_children[OF inv, of p] False
          by (simp add: f pe sm(4))
      qed
      show "\<forall>x\<in>set (done @ [e]). \<not> skips st0 x \<longrightarrow> \<not> opens st0 x \<longrightarrow> finished (st' x)"
        using replay_inv_closed_now[OF inv] by (auto simp: sm(5) op)
    qed
  qed
qed

lemma replay_inv_replay:
  assumes "replay raises tie events (st, stacks, heap) = Some (Inr (st', stacks', heap'))"
    and "replay_inv st0 done st stacks heap"
    and "distinct (done @ events)"
  shows "replay_inv st0 (done @ events) st' stacks' heap'"
  using assms
proof (induction events arbitrary: st stacks heap "done")
  case Nil
  then show ?case by simp
next
  case (Cons e events)
  from Cons.prems(1) obtain s1 s2 where
    pe: "pop_ends raises tie (Some (start_time_ns (st e))) (st, stacks, heap) = Some (Inr s1)" and
    pu: "push_event raises s1 e = Some (Inr s2)" and
    re: "replay raises tie events s2 = Some (Inr (st', stacks', heap'))"
    by (auto simp: bind_outcome_eq_ok)
  obtain st1 stacks1 heap1 where s1: "s1 = (st1, stacks1, heap1)" by (cases s1)
  obtain st2 stacks2 heap2 where s2: "s2 = (st2, stacks2, heap2)" by (cases s2)
  have i1: "replay_inv st0 done st1 stacks1 heap1"
    by (rule pop_ends_inv[OF pe[unfolded s1] Cons.prems(2)])
  have "e \<notin> set done" using Cons.prems(3) by auto
  then have i2: "replay_inv st0 (done @ [e]) st2 stacks2 heap2"
    using pu unfolding s1 s2 by (intro push_event_inv[OF i1])
  have "replay_inv st0 ((done @ [e]) @ events) st' stacks' heap'"
    using Cons.prems(3) by (intro Cons.IH[OF re[unfolded s2] i2]) simp
  then show ?case by simp
qed

lemma build_tree_inv:
  assumes "build_tree raises tie events st0 = Some (Inr st')" and "distinct events"
  shows "\<exists>stacks' heap'. replay_inv st0 events st' stacks' heap'"
proof -
  from assms(1) obtain s1 st2 stacks2 heap2 where
    re: "replay raises tie events (st0, Map.empty, []) = Some (Inr s1)" and
    pe: "pop_ends raises tie None s1 = Some (Inr (st2, stacks2, heap2))" and
    eq: "st' = st2"
    by (auto simp: build_tree_def bind_outcome_eq_ok)
  obtain st1 stacks1 heap1 where s1: "s1 = (st1, stacks1, heap1)" by (cases s1)
  have "replay_inv st0 ([] @ events) st1 stacks1 heap1"
    using assms(2) by (intro replay_inv_replay[OF re[unfolded s1] replay_inv_init]) simp
  then have "replay_inv st0 events st1 stacks1 heap1" by simp
  then have "replay_inv st0 events st2 stacks2 heap2"
    by (rule pop_ends_inv[OF pe[unfolded s1]])
  then show ?thesis unfolding eq by blast
qed

section \<open>Observations and example inputs\<close>

text \<open>
  What a consumer reads from a node of the returned forest: its parent, its children in
  order, whether it is finished, and the end time it reports.
\<close>

definition node_of :: "store outcome \<Rightarrow> rid \<Rightarrow> (rid option \<times> rid list \<times> bool) outcome" where
  "node_of out r = bind_outcome out (\<lambda>st. ok (parent (st r), children (st r), finished (st r)))"

definition end_of :: "bool \<Rightarrow> store outcome \<Rightarrow> rid \<Rightarrow> time_t outcome" where
  "end_of raises out r = bind_outcome out (\<lambda>st. endTimeNS raises st r)"

text \<open>An operation event on thread \<open>tid\<close> with the interval \<open>[start_ns, end_ns]\<close>.\<close>

definition torch_op :: "time_t \<Rightarrow> time_t \<Rightarrow> tid_t \<Rightarrow> result" where
  "torch_op start_ns end_ns tid =
     \<lparr>start_time_ns = start_ns, start_tid = tid, extra_fields = TorchOp end_ns 0 [],
      parent = None, children = [], finished = False\<rparr>"

text \<open>The three events A:[0,100], B:[10,50], C:[60,90] on one thread, at addresses 0, 1, 2.\<close>

definition abc_store :: store where
  "abc_store = (\<lambda>_. torch_op 0 100 1)(1 := torch_op 10 50 1, 2 := torch_op 60 90 1)"

text \<open>Two events on one thread, A:[0,100] and B:[10,200]: B ends after A.\<close>

definition overlap_store :: store where
  "overlap_store = (\<lambda>_. torch_op 0 100 1)(1 := torch_op 10 200 1)"

lemma pick_single [simp]: "pick tie [x] = x"
  by (simp add: pick_def)

lemmas build_eval = build_tree_def push_event_def pop_event_def mark_finished_def pq_top_def
  min_end_events_def endTimeNS.simps pop_event_loop.simps pop_ends.simps fwd_tid_of_def
  SOFT_ASSERT_def time_min_def Let_def node_of_def end_of_def torch_op_def

section \<open>Well-formedness of the tree\<close>

text \<open>
  The builder does not compare a child's end time with its parent's: with A:[0,100] and
  B:[10,200] on one thread, B becomes a child of A, both are finished, and B reports the
  end time 200 while A reports 100.
\<close>

theorem child_outlives_parent:
  "node_of (build_tree False hd [0, 1] overlap_store) 1 = Some (Inr (Some 0, [], True))
   \<and> end_of False (build_tree False hd [0, 1] overlap_store) 0 = Some (Inr 100)
   \<and> end_of False (build_tree False hd [0, 1] overlap_store) 1 = Some (Inr 200)"
  by (simp add: build_eval overlap_store_def)


text \<open>
  C1 (amended). After tree construction on distinct events sorted by start time, every
  finished node reports an end time that is not earlier than its start time, and every
  event that the builder attached to a parent (every event of the list that the pass
  does not skip) starts no earlier than that parent. Nothing bounds a child's end time
  by its parent's.
\<close>

theorem build_tree_start_order:
  assumes "build_tree raises tie sorted_events st = Some (Inr st')"
    and "distinct sorted_events"
    and "sorted_wrt (\<lambda>a b. start_time_ns (st a) \<le> start_time_ns (st b)) sorted_events"
  shows "(\<forall>x v. finished (st' x) \<longrightarrow> endTimeNS raises st' x = Some (Inr v)
            \<longrightarrow> start_time_ns (st' x) \<le> v)
     \<and> (\<forall>x p. x \<in> set sorted_events
            \<longrightarrow> \<not> (is_Kineto (extra_fields (st x)) \<and> finished (st x))
            \<longrightarrow> parent (st' x) = Some p
            \<longrightarrow> start_time_ns (st' p) \<le> start_time_ns (st' x))"
proof (intro conjI allI impI)
  fix x v
  assume "finished (st' x)" "endTimeNS raises st' x = Some (Inr v)"
  then show "start_time_ns (st' x) \<le> v" by (rule endTimeNS_finished_ge)
next
  fix x p
  assume x: "x \<in> set sorted_events"
    and ns: "\<not> (is_Kineto (extra_fields (st x)) \<and> finished (st x))"
    and p: "parent (st' x) = Some p"
  from build_tree_inv[OF assms(1,2)] obtain stacks' heap'
    where inv: "replay_inv st sorted_events st' stacks' heap'" by blast
  from x obtain as bs where d: "sorted_events = as @ x # bs" by (auto dest: split_list)
  have "p \<in> opened st as"
    using replay_inv_parent[OF inv d _ p] ns by (simp add: skips_def)
  then have "p \<in> set as" by (auto dest: openedD)
  then have "start_time_ns (st p) \<le> start_time_ns (st x)"
    using assms(3) unfolding d by (auto simp: sorted_wrt_append)
  then show "start_time_ns (st' p) \<le> start_time_ns (st' x)"
    by (simp add: replay_inv_fields[OF inv])
qed

text \<open>The forest built from A, B, C.\<close>

definition abc_tree :: store where
  "abc_tree = (\<lambda>_. torch_op 0 100 1)
     (0 := (torch_op 0 100 1)\<lparr>children := [1, 2], finished := True\<rparr>,
      1 := (torch_op 10 50 1)\<lparr>parent := Some 0, finished := True\<rparr>,
      2 := (torch_op 60 90 1)\<lparr>parent := Some 0, finished := True\<rparr>)"

lemma build_tree_abc: "build_tree raises tie [0, 1, 2] abc_store = Some (Inr abc_tree)"
  by (simp add: build_eval abc_store_def abc_tree_def) (auto simp: fun_eq_iff)

theorem build_tree_start_order_witness:
  "build_tree False hd [0, 1, 2] abc_store = Some (Inr abc_tree)
   \<and> distinct [0, 1, 2 :: nat]
   \<and> sorted_wrt (\<lambda>a b. start_time_ns (abc_store a) \<le> start_time_ns (abc_store b)) [0, 1, 2]
   \<and> parent (abc_tree 2) = Some 0
   \<and> start_time_ns (abc_tree 0) \<le> start_time_ns (abc_tree 2)"
proof -
  have b: "build_tree False hd [0, 1, 2] abc_store = Some (Inr abc_tree)"
    by (rule build_tree_abc)
  have d: "distinct [0, 1, 2 :: nat]" by simp
  have s: "sorted_wrt (\<lambda>a b. start_time_ns (abc_store a) \<le> start_time_ns (abc_store b)) [0, 1, 2]"
    by (simp add: abc_store_def torch_op_def)
  have p: "parent (abc_tree 2) = Some 0" by (simp add: abc_tree_def torch_op_def)
  have k: "\<not> (is_Kineto (extra_fields (abc_store 2)) \<and> finished (abc_store 2))"
    by (simp add: abc_store_def torch_op_def)
  from build_tree_start_order[OF b d s] p k
  have "start_time_ns (abc_tree 0) \<le> start_time_ns (abc_tree 2)" by simp
  with b d s p show ?thesis by simp
qed

section \<open>The loop over the pending ends\<close>

lemma declared_end_cong:
  "start_time_ns r = start_time_ns r' \<Longrightarrow> extra_fields r = extra_fields r'
   \<Longrightarrow> declared_end r = declared_end r'"
  by (simp add: declared_end_def split: extra_fields.splits)

lemma declared_end_finish_all [simp]:
  "declared_end (finish_all st F x) = declared_end (st x)"
  by (rule declared_end_cong) simp_all

lemma endTimeNS_pending:
  assumes "start_time_ns (st x) < declared_end (st x)" "declared_end (st x) \<noteq> time_min"
  shows "endTimeNS raises st x = ok (declared_end (st x))"
  using assms
  by (subst endTimeNS.simps)
     (auto simp: declared_end_def SOFT_ASSERT_def split: extra_fields.splits)

lemma end_times_pending:
  assumes "\<forall>x\<in>set heap. start_time_ns (st x) < declared_end (st x)
             \<and> declared_end (st x) \<noteq> time_min"
  shows "end_times raises st heap = ok (map (\<lambda>x. declared_end (st x)) heap)"
  using assms by (induction heap) (simp_all add: endTimeNS_pending)

lemma min_end_events_map:
  "x \<in> set (min_end_events heap (map f heap)) \<Longrightarrow> f x = min_list (map f heap)"
  by (auto simp: min_end_events_def zip_map2 zip_same_conv_map)

lemma pq_top_pending:
  assumes "pq_top tie raises st heap = Some (Inr (tp, t))" "heap \<noteq> []"
    and "\<forall>x\<in>set heap. start_time_ns (st x) < declared_end (st x)
             \<and> declared_end (st x) \<noteq> time_min"
  shows "declared_end (st tp) = t" and "\<forall>x\<in>set heap. t \<le> declared_end (st x)"
proof -
  let ?ts = "map (\<lambda>x. declared_end (st x)) heap"
  from assms(1) have tp: "tp = pick tie (min_end_events heap ?ts)" and t: "t = min_list ?ts"
    by (simp_all add: pq_top_def end_times_pending[OF assms(3)])
  have "min_end_events heap ?ts \<noteq> []"
    using assms(2) by (intro min_end_events_nonempty) simp_all
  then have "tp \<in> set (min_end_events heap ?ts)" unfolding tp by (rule pick_mem)
  then show "declared_end (st tp) = t" unfolding t by (rule min_end_events_map)
  have "?ts \<noteq> []" using assms(2) by simp
  then have "t = Min (set ?ts)" unfolding t by (simp add: min_list_Min)
  then show "\<forall>x\<in>set heap. t \<le> declared_end (st x)" by auto
qed

lemma filter_remove1_out: "\<not> P x \<Longrightarrow> filter P (remove1 x xs) = filter P xs"
  by (induction xs) auto

lemma pop_event_finishes:
  assumes "pop_event raises (st, stacks) event = Some (Inr (st', stacks'))"
  shows "\<exists>F. st' = finish_all st F" and "finished (st' event)"
  using pop_event_effect[OF assms, of UNIV] by (auto simp: parent_closed_def)

lemma pop_ends_post:
  assumes "pop_ends raises tie (Some start) (st, stacks, heap) = Some (Inr (st', stacks', heap'))"
    and "\<forall>x\<in>set heap. start_time_ns (st x) < declared_end (st x)
             \<and> declared_end (st x) \<noteq> time_min"
  shows "heap' = filter (\<lambda>x. start \<le> declared_end (st x)) heap
         \<and> (\<forall>x\<in>set heap. declared_end (st x) < start \<longrightarrow> finished (st' x))
         \<and> (\<exists>F. st' = finish_all st F)"
  using assms
proof (induction raises tie "Some start" "(st, stacks, heap)" arbitrary: st stacks heap
    rule: pop_ends.induct)
  case (1 raises tie st stacks heap)
  show ?case
  proof (cases "heap = []")
    case True
    then have "st' = st" "heap' = []" using "1.prems"(1) by (simp_all add: pop_ends.simps)
    then show ?thesis using True by (auto intro: exI[of _ "{}"])
  next
    case False
    with "1.prems"(1) obtain tp t where
      top: "pq_top tie raises st heap = Some (Inr (tp, t))" and
      rest: "(if t < start
           then bind_outcome (pop_event raises (st, stacks) tp)
                  (\<lambda>(st', stacks'). pop_ends raises tie (Some start) (st', stacks', remove1 tp heap))
           else ok (st, stacks, heap)) = Some (Inr (st', stacks', heap'))"
      by (subst (asm) pop_ends.simps) (auto simp: bind_outcome_eq_ok)
    note tp = pq_top_pending[OF top False "1.prems"(2)]
    have mem: "tp \<in> set heap" by (rule pq_top_mem[OF top False])
    show ?thesis
    proof (cases "t < start")
      case c: True
      with rest obtain st1 stacks1 where
        pop: "pop_event raises (st, stacks) tp = Some (Inr (st1, stacks1))" and
        rec: "pop_ends raises tie (Some start) (st1, stacks1, remove1 tp heap)
              = Some (Inr (st', stacks', heap'))"
        by (auto simp: bind_outcome_eq_ok)
      from pop_event_finishes[OF pop] obtain F1 where
        F1: "st1 = finish_all st F1" and fin: "finished (st1 tp)" by blast
      have de: "declared_end (st1 x) = declared_end (st x)" for x
        by (simp add: F1)
      have pend: "\<forall>x\<in>set (remove1 tp heap). start_time_ns (st1 x) < declared_end (st1 x)
             \<and> declared_end (st1 x) \<noteq> time_min"
        using "1.prems"(2) set_remove1_subset[of tp heap] by (auto simp: de F1)
      have c': "case Some start of None \<Rightarrow> True | Some s \<Rightarrow> t < s" using c by simp
      note ih = "1.hyps"[OF False top refl c' pop refl rec pend]
      from ih obtain F2 where F2: "st' = finish_all st1 F2" by blast
      have h: "heap' = filter (\<lambda>x. start \<le> declared_end (st x)) heap"
        using ih c tp(1) by (simp add: de filter_remove1_out)
      have f: "finished (st' x)" if "x \<in> set heap" "declared_end (st x) < start" for x
      proof (cases "x = tp")
        case True
        then show ?thesis using fin by (simp add: F2)
      next
        case False
        then have "x \<in> set (remove1 tp heap)" using that(1) by simp
        then show ?thesis using ih that(2) by (simp add: de)
      qed
      have "st' = finish_all st (F1 \<union> F2)" by (simp add: F2 F1 finish_all_twice)
      then show ?thesis using h f by blast
    next
      case c: False
      with rest have eq: "st' = st" "heap' = heap" by simp_all
      have "\<forall>x\<in>set heap. start \<le> declared_end (st x)" using tp(2) c by fastforce
      then show ?thesis unfolding eq by (auto intro: exI[of _ "{}"])
    qed
  qed
qed

section \<open>The builder returns\<close>

text \<open>
  An event whose own end time is known and not earlier than its start reports that end
  time, finished or not, and \<^verbatim>\<open>mark_finished\<close> succeeds on it.
\<close>

lemma endTimeNS_known:
  assumes "start_time_ns (st x) \<le> declared_end (st x)" "declared_end (st x) \<noteq> time_min"
  shows "endTimeNS raises st x = ok (declared_end (st x))"
  using assms
  by (subst endTimeNS.simps)
     (auto simp: declared_end_def SOFT_ASSERT_def split: extra_fields.splits)

lemma mark_finished_total:
  assumes "\<not> finished (st r)" "start_time_ns (st r) \<le> declared_end (st r)"
    "declared_end (st r) \<noteq> time_min"
  shows "mark_finished raises st r = ok (finish_all st {r})"
proof -
  let ?st' = "st(r := (st r)\<lparr>finished := True\<rparr>)"
  have eq: "?st' = finish_all st {r}" by (rule finish_all_one)
  have "endTimeNS raises ?st' r = ok (declared_end (?st' r))"
    unfolding eq using assms(2,3) by (intro endTimeNS_known) simp_all
  moreover have "declared_end (?st' r) = declared_end (st r)"
    unfolding eq by simp
  ultimately show ?thesis
    using assms(1,2) by (simp add: mark_finished_def Let_def del: fun_upd_apply) (simp add: eq)
qed

text \<open>
  A list of frames in which each one has the next one as its parent: the shape of the walk
  of \<^verbatim>\<open>pop_event\<close> from the open frame of a thread up to the event.
\<close>

fun chain :: "store \<Rightarrow> rid list \<Rightarrow> bool" where
  "chain st [] \<longleftrightarrow> True"
| "chain st [x] \<longleftrightarrow> True"
| "chain st (x # y # zs) \<longleftrightarrow> parent (st x) = Some y \<and> chain st (y # zs)"

lemma chain_cong:
  "(\<And>x. x \<in> set fs \<Longrightarrow> parent (st' x) = parent (st x)) \<Longrightarrow> chain st' fs = chain st fs"
  by (induction st fs rule: chain.induct) auto

lemma chain_finish_all [simp]: "chain (finish_all st F) fs = chain st fs"
  by (rule chain_cong) simp

lemma chain_Cons: "chain st (x # fs) \<longleftrightarrow> (fs \<noteq> [] \<longrightarrow> parent (st x) = Some (hd fs)) \<and> chain st fs"
  by (cases fs) auto

lemma chain_append:
  "chain st (as @ bs) \<Longrightarrow> chain st as \<and> chain st bs"
  by (induction as) (auto simp: chain_Cons hd_append split: if_splits)

lemma chain_append_Cons:
  "chain st (as @ x # bs) \<Longrightarrow> chain st (as @ [x])"
  by (induction as) (auto simp: chain_Cons hd_append split: if_splits)

lemma pop_event_loop_total:
  assumes "chain st (A @ [X])" "distinct (A @ [X])"
    and "\<forall>f\<in>set A. \<not> finished (st f) \<and> start_time_ns (st f) \<le> declared_end (st f)
                   \<and> declared_end (st f) \<noteq> time_min"
  shows "pop_event_loop raises st (hd (A @ [X])) X = ok (finish_all st (set A))"
  using assms
proof (induction A arbitrary: st)
  case Nil
  show ?case by (subst pop_event_loop.simps) simp
next
  case (Cons f A)
  have ne: "f \<noteq> X" using Cons.prems(2) by auto
  let ?st1 = "finish_all st {f}"
  have mf: "mark_finished raises st f = ok ?st1"
    using Cons.prems(3) by (intro mark_finished_total) simp_all
  have par: "parent (st f) = Some (hd (A @ [X]))"
    using Cons.prems(1) by (simp add: chain_Cons)
  have c1: "chain ?st1 (A @ [X])"
    using Cons.prems(1) by (simp add: chain_Cons)
  have d1: "distinct (A @ [X])" using Cons.prems(2) by simp
  have u1: "\<forall>g\<in>set A. \<not> finished (?st1 g) \<and> start_time_ns (?st1 g) \<le> declared_end (?st1 g)
                   \<and> declared_end (?st1 g) \<noteq> time_min"
    using Cons.prems(2,3) by auto
  have "pop_event_loop raises st (hd ((f # A) @ [X])) X
        = pop_event_loop raises ?st1 (hd (A @ [X])) X"
    using ne by (subst pop_event_loop.simps) (simp add: mf par)
  also have "\<dots> = ok (finish_all ?st1 (set A))" by (rule Cons.IH[OF c1 d1 u1])
  finally show ?case by (simp add: finish_all_twice)
qed

text \<open>
  The state of the builder after the events \<open>done\<close>. The queue holds pushed events with an
  end time later than their start and different from the unset sentinel, without
  repetitions. For every thread \<open>t\<close> the list \<open>fs t\<close> holds the unfinished events of the
  thread that are in the queue, innermost first: it is a chain of parents, and its head is
  the open frame of the thread. Every unfinished event of the queue is in the list of its
  thread, and every event seen so far is finished or in the queue.
\<close>

definition frames_inv ::
  "rid list \<Rightarrow> store \<Rightarrow> stacks \<Rightarrow> rid list \<Rightarrow> (tid_t \<Rightarrow> rid list) \<Rightarrow> bool" where
  "frames_inv done st stacks heap fs \<longleftrightarrow>
     distinct heap \<and>
     (\<forall>x\<in>set heap. x \<in> set done \<and> start_time_ns (st x) < declared_end (st x)
                   \<and> declared_end (st x) \<noteq> time_min) \<and>
     (\<forall>t. chain st (fs t) \<and> distinct (fs t) \<and> (fs t \<noteq> [] \<longrightarrow> stacks t = Some (hd (fs t)))
          \<and> (\<forall>x\<in>set (fs t). x \<in> set heap \<and> \<not> finished (st x) \<and> start_tid (st x) = t)) \<and>
     (\<forall>x\<in>set heap. \<not> finished (st x) \<longrightarrow> x \<in> set (fs (start_tid (st x)))) \<and>
     (\<forall>x\<in>set done. finished (st x) \<or> x \<in> set heap)"

lemma frames_invD:
  assumes "frames_inv done st stacks heap fs"
  shows "distinct heap"
    and "\<And>x. x \<in> set heap \<Longrightarrow> x \<in> set done \<and> start_time_ns (st x) < declared_end (st x)
                   \<and> declared_end (st x) \<noteq> time_min"
    and "\<And>t. chain st (fs t)" and "\<And>t. distinct (fs t)"
    and "\<And>t. fs t \<noteq> [] \<Longrightarrow> stacks t = Some (hd (fs t))"
    and "\<And>t x. x \<in> set (fs t) \<Longrightarrow> x \<in> set heap \<and> \<not> finished (st x) \<and> start_tid (st x) = t"
    and "\<And>x. x \<in> set heap \<Longrightarrow> \<not> finished (st x) \<Longrightarrow> x \<in> set (fs (start_tid (st x)))"
    and "\<And>x. x \<in> set done \<Longrightarrow> finished (st x) \<or> x \<in> set heap"
  using assms unfolding frames_inv_def by blast+

lemma frames_inv_init: "frames_inv [] st Map.empty [] (\<lambda>t. [])"
  by (simp add: frames_inv_def)

lemma pop_event_total:
  assumes inv: "frames_inv done st stacks heap fs" and ev: "event \<in> set heap"
  shows "\<exists>st' stacks' fs'. pop_event raises (st, stacks) event = Some (Inr (st', stacks'))
           \<and> frames_inv done st' stacks' (remove1 event heap) fs'"
proof (cases "finished (st event)")
  case True
  have r: "pop_event raises (st, stacks) event = Some (Inr (st, stacks))"
    using True by (simp add: pop_event_def ok_def)
  note D = frames_invD[OF inv]
  have sub: "x \<in> set heap" if "x \<in> set (remove1 event heap)" for x
    using that D(1) by (simp add: set_remove1_eq)
  have keep: "x \<in> set (remove1 event heap)" if "x \<in> set heap" "\<not> finished (st x)" for x
    using that True D(1) by (auto simp: set_remove1_eq)
  have "frames_inv done st stacks (remove1 event heap) fs"
    unfolding frames_inv_def
  proof (intro conjI allI ballI impI)
    show "distinct (remove1 event heap)" using D(1) by simp
    show "finished (st x) \<or> x \<in> set (remove1 event heap)" if "x \<in> set done" for x
      using D(8)[OF that] keep by blast
    show "x \<in> set (remove1 event heap)" if "x \<in> set (fs t)" for x t
      using D(6)[OF that] keep by blast
    show "x \<in> set done" if "x \<in> set (remove1 event heap)" for x
      using D(2)[OF sub[OF that]] by blast
    show "start_time_ns (st x) < declared_end (st x)" if "x \<in> set (remove1 event heap)" for x
      using D(2)[OF sub[OF that]] by blast
    show "declared_end (st x) \<noteq> time_min" if "x \<in> set (remove1 event heap)" for x
      using D(2)[OF sub[OF that]] by blast
    show "chain st (fs t)" for t by (rule D(3))
    show "distinct (fs t)" for t by (rule D(4))
    show "stacks t = Some (hd (fs t))" if "fs t \<noteq> []" for t by (rule D(5)[OF that])
    show "\<not> finished (st x)" if "x \<in> set (fs t)" for x t
      using D(6)[OF that] by blast
    show "start_tid (st x) = t" if "x \<in> set (fs t)" for x t
      using D(6)[OF that] by blast
    show "x \<in> set (fs (start_tid (st x)))"
      if "x \<in> set (remove1 event heap)" "\<not> finished (st x)" for x
      by (rule D(7)[OF sub[OF that(1)] that(2)])
  qed
  then show ?thesis using r by blast
next
  case False
  note D = frames_invD[OF inv]
  let ?t = "start_tid (st event)"
  have "event \<in> set (fs ?t)" by (rule D(7)[OF ev False])
  then obtain A B where fs: "fs ?t = A @ event # B" by (auto dest: split_list)
  have dist: "distinct (A @ event # B)" using D(4)[of ?t] by (simp add: fs)
  have top: "stacks ?t = Some (hd (A @ [event]))"
    using D(5)[of ?t] by (simp add: fs hd_append)
  have ch: "chain st (A @ event # B)" using D(3)[of ?t] by (simp add: fs)
  have chA: "chain st (A @ [event])" by (rule chain_append_Cons[OF ch])
  have el: "x \<in> set heap \<and> \<not> finished (st x) \<and> start_tid (st x) = ?t"
    if "x \<in> set (A @ event # B)" for x
    using D(6)[of x ?t] that by (simp add: fs)
  have uA: "\<forall>f\<in>set A. \<not> finished (st f) \<and> start_time_ns (st f) \<le> declared_end (st f)
                   \<and> declared_end (st f) \<noteq> time_min"
  proof
    fix f assume "f \<in> set A"
    then have "f \<in> set heap \<and> \<not> finished (st f)" using el[of f] by simp
    then show "\<not> finished (st f) \<and> start_time_ns (st f) \<le> declared_end (st f)
                   \<and> declared_end (st f) \<noteq> time_min"
      using D(2)[of f] by auto
  qed
  let ?st1 = "finish_all st (set A)"
  let ?st2 = "finish_all st (set A \<union> {event})"
  have lp: "pop_event_loop raises st (hd (A @ [event])) event = ok ?st1"
    using dist by (intro pop_event_loop_total[OF chA _ uA]) simp
  have "\<not> finished (?st1 event)" using False dist by simp
  moreover have "start_time_ns (?st1 event) \<le> declared_end (?st1 event)"
    "declared_end (?st1 event) \<noteq> time_min"
    using D(2)[OF ev] by simp_all
  ultimately have mf: "mark_finished raises ?st1 event = ok ?st2"
    by (simp add: mark_finished_total finish_all_twice)
  define stacks' where "stacks' = (case parent (st event) of
       Some new_frame \<Rightarrow> (stacks(?t := None))(?t \<mapsto> new_frame)
     | None \<Rightarrow> stacks(?t := None))"
  have r: "pop_event raises (st, stacks) event = Some (Inr (?st2, stacks'))"
    using False by (simp add: pop_event_def Let_def top lp mf stacks'_def ok_def)
  have other: "stacks' t = stacks t" if "t \<noteq> ?t" for t
    using that by (simp add: stacks'_def split: option.splits)
  have chB: "chain st B" using chain_append[OF ch] by (simp add: chain_Cons)
  have topB: "stacks' ?t = Some (hd B)" if "B \<noteq> []"
  proof -
    have "chain st (event # B)" using chain_append[OF ch] by simp
    then have "parent (st event) = Some (hd B)" using that by (simp add: chain_Cons)
    then show ?thesis by (simp add: stacks'_def)
  qed
  define fs' where "fs' = fs(?t := B)"
  have fin2: "finished (?st2 x) \<longleftrightarrow> x \<in> set A \<or> x = event \<or> finished (st x)" for x
    by auto
  have "frames_inv done ?st2 stacks' (remove1 event heap) fs'"
    unfolding frames_inv_def
  proof (intro conjI allI ballI impI)
    show "distinct (remove1 event heap)" using D(1) by simp
  next
    fix x assume "x \<in> set (remove1 event heap)"
    then have "x \<in> set heap" using D(1) by (simp add: set_remove1_eq)
    then show "x \<in> set done" "start_time_ns (?st2 x) < declared_end (?st2 x)"
      "declared_end (?st2 x) \<noteq> time_min"
      using D(2)[of x] by simp_all
  next
    fix t
    show "chain ?st2 (fs' t)"
    proof (cases "t = ?t")
      case True
      then show ?thesis using chB by (simp add: fs'_def)
    next
      case False
      then show ?thesis using D(3)[of t] by (simp add: fs'_def)
    qed
    show "distinct (fs' t)" using D(4)[of t] dist by (simp add: fs'_def)
  next
    fix t assume ne: "fs' t \<noteq> []"
    show "stacks' t = Some (hd (fs' t))"
    proof (cases "t = ?t")
      case True
      then show ?thesis using ne topB by (simp add: fs'_def)
    next
      case False
      then show ?thesis using ne D(5)[of t] other by (simp add: fs'_def)
    qed
  next
    fix t x assume x: "x \<in> set (fs' t)"
    have old: "x \<in> set (fs t)" using x by (auto simp: fs'_def fs split: if_splits)
    note o = D(6)[OF old]
    have notA: "x \<notin> set A \<and> x \<noteq> event"
    proof (cases "t = ?t")
      case True
      then have "x \<in> set B" using x by (simp add: fs'_def)
      then show ?thesis using dist by auto
    next
      case False
      show ?thesis
      proof (intro conjI notI)
        assume "x \<in> set A"
        then have "start_tid (st x) = ?t" using el[of x] by simp
        then show False using o False by simp
      next
        assume "x = event"
        then show False using o False by simp
      qed
    qed
    show "x \<in> set (remove1 event heap)" using o notA by simp
    show "\<not> finished (?st2 x)" using o notA by simp
    show "start_tid (?st2 x) = t" using o by simp
  next
    fix x assume x: "x \<in> set (remove1 event heap)" and nf: "\<not> finished (?st2 x)"
    have xh: "x \<in> set heap" using x D(1) by (simp add: set_remove1_eq)
    have nf0: "\<not> finished (st x)" and notA: "x \<notin> set A" "x \<noteq> event" using nf by auto
    have m: "x \<in> set (fs (start_tid (st x)))" by (rule D(7)[OF xh nf0])
    show "x \<in> set (fs' (start_tid (?st2 x)))"
    proof (cases "start_tid (st x) = ?t")
      case True
      then have "x \<in> set (A @ event # B)" using m by (simp add: fs)
      then have "x \<in> set B" using notA by auto
      then show ?thesis using True by (simp add: fs'_def)
    next
      case False
      then show ?thesis using m by (simp add: fs'_def)
    qed
  next
    fix x assume "x \<in> set done"
    from D(8)[OF this]
    show "finished (?st2 x) \<or> x \<in> set (remove1 event heap)"
      by (cases "x = event") auto
  qed
  then show ?thesis using r by blast
qed

text \<open>
  An event the builder has not seen: no parent, not finished, all children finished (they
  can only come from the merge of the external trace), and an end time of its own that is
  known and not earlier than its start. The input of the builder is \<open>recorded\<close> when its
  events are distinct and each of them is such an event or an external activity that the
  merge has already finished.
\<close>

definition unbuilt :: "store \<Rightarrow> rid \<Rightarrow> bool" where
  "unbuilt st x \<longleftrightarrow>
     parent (st x) = None \<and> \<not> finished (st x)
     \<and> (\<forall>c\<in>set (children (st x)). finished (st c))
     \<and> start_time_ns (st x) \<le> declared_end (st x) \<and> declared_end (st x) \<noteq> time_min"

definition recorded :: "store \<Rightarrow> rid list \<Rightarrow> bool" where
  "recorded st events \<longleftrightarrow> distinct events \<and> (\<forall>x\<in>set events. skips st x \<or> unbuilt st x)"

lemma pop_ends_total:
  assumes "frames_inv done st stacks heap fs"
  shows "\<exists>st' stacks' heap' fs'.
           pop_ends raises tie limit (st, stacks, heap) = Some (Inr (st', stacks', heap'))
         \<and> frames_inv done st' stacks' heap' fs'"
  using assms
proof (induction raises tie limit "(st, stacks, heap)" arbitrary: st stacks heap fs
    rule: pop_ends.induct)
  case (1 raises tie limit st stacks heap)
  show ?case
  proof (cases "heap = []")
    case True
    then have "pop_ends raises tie limit (st, stacks, heap) = Some (Inr (st, stacks, heap))"
      by (simp add: pop_ends.simps ok_def)
    then show ?thesis using "1.prems" by blast
  next
    case False
    note D = frames_invD[OF "1.prems"]
    have pend: "\<forall>x\<in>set heap. start_time_ns (st x) < declared_end (st x)
             \<and> declared_end (st x) \<noteq> time_min"
      using D(2) by blast
    define ts where "ts = map (\<lambda>x. declared_end (st x)) heap"
    define tp where "tp = pick tie (min_end_events heap ts)"
    define t where "t = min_list ts"
    have top: "pq_top tie raises st heap = Some (Inr (tp, t))"
      by (simp add: pq_top_def end_times_pending[OF pend] tp_def t_def ts_def ok_def)
    have mem: "tp \<in> set heap" by (rule pq_top_mem[OF top False])
    show ?thesis
    proof (cases "case limit of None \<Rightarrow> True | Some start \<Rightarrow> t < start")
      case c: True
      from pop_event_total[OF "1.prems" mem, of raises] obtain st1 stacks1 fs1 where
        pop: "pop_event raises (st, stacks) tp = Some (Inr (st1, stacks1))" and
        inv1: "frames_inv done st1 stacks1 (remove1 tp heap) fs1"
        by blast
      from "1.hyps"[OF False top refl c pop refl inv1] obtain st' stacks' heap' fs' where
        rec: "pop_ends raises tie limit (st1, stacks1, remove1 tp heap)
              = Some (Inr (st', stacks', heap'))" and
        inv': "frames_inv done st' stacks' heap' fs'"
        by blast
      have "pop_ends raises tie limit (st, stacks, heap) = Some (Inr (st', stacks', heap'))"
        using False c by (subst pop_ends.simps) (simp add: top pop rec)
      then show ?thesis using inv' by blast
    next
      case c: False
      have "pop_ends raises tie limit (st, stacks, heap) = Some (Inr (st, stacks, heap))"
        using False c by (subst pop_ends.simps) (simp add: top ok_def)
      then show ?thesis using "1.prems" by blast
    qed
  qed
qed

lemma pop_ends_None_empty:
  assumes "pop_ends raises tie None (st, stacks, heap) = Some (Inr (st', stacks', heap'))"
  shows "heap' = []"
  using assms
proof (induction raises tie "None :: time_t option" "(st, stacks, heap)"
    arbitrary: st stacks heap rule: pop_ends.induct)
  case (1 raises tie st stacks heap)
  show ?case
  proof (cases "heap = []")
    case True
    then show ?thesis using "1.prems" by (simp add: pop_ends.simps)
  next
    case False
    with "1.prems" obtain tp t st1 stacks1 where
      top: "pq_top tie raises st heap = Some (Inr (tp, t))" and
      pop: "pop_event raises (st, stacks) tp = Some (Inr (st1, stacks1))" and
      rec: "pop_ends raises tie None (st1, stacks1, remove1 tp heap)
              = Some (Inr (st', stacks', heap'))"
      by (subst (asm) pop_ends.simps) (auto simp: bind_outcome_eq_ok)
    have c: "case None :: time_t option of None \<Rightarrow> True | Some start \<Rightarrow> t < start" by simp
    show ?thesis by (rule "1.hyps"[OF False top refl c pop refl rec])
  qed
qed

lemma push_event_total:
  assumes inv: "frames_inv done st stacks heap fs"
    and new: "e \<notin> set done"
    and ev: "skips st e \<or> unbuilt st e"
  shows "\<exists>st' stacks' heap' fs'.
           push_event raises (st, stacks, heap) e = Some (Inr (st', stacks', heap'))
         \<and> frames_inv (done @ [e]) st' stacks' heap' fs'
         \<and> heap' = heap @ (if opens st e then [e] else [])"
proof (cases "skips st e")
  case True
  note D = frames_invD[OF inv]
  have r: "push_event raises (st, stacks, heap) e = Some (Inr (st, stacks, heap))"
    using True by (simp add: push_event_def skips_def ok_def)
  have fin: "finished (st e)" using True by (simp add: skips_def)
  have "frames_inv (done @ [e]) st stacks heap fs"
    unfolding frames_inv_def
  proof (intro conjI allI ballI impI)
    show "distinct heap" by (rule D(1))
    show "x \<in> set (done @ [e])" if "x \<in> set heap" for x using D(2)[OF that] by simp
    show "start_time_ns (st x) < declared_end (st x)" if "x \<in> set heap" for x
      using D(2)[OF that] by blast
    show "declared_end (st x) \<noteq> time_min" if "x \<in> set heap" for x
      using D(2)[OF that] by blast
    show "chain st (fs t)" for t by (rule D(3))
    show "distinct (fs t)" for t by (rule D(4))
    show "stacks t = Some (hd (fs t))" if "fs t \<noteq> []" for t by (rule D(5)[OF that])
    show "x \<in> set heap" if "x \<in> set (fs t)" for x t using D(6)[OF that] by blast
    show "\<not> finished (st x)" if "x \<in> set (fs t)" for x t using D(6)[OF that] by blast
    show "start_tid (st x) = t" if "x \<in> set (fs t)" for x t using D(6)[OF that] by blast
    show "x \<in> set (fs (start_tid (st x)))" if "x \<in> set heap" "\<not> finished (st x)" for x
      by (rule D(7)[OF that])
    show "finished (st x) \<or> x \<in> set heap" if "x \<in> set (done @ [e])" for x
    proof (cases "x = e")
      case True
      then show ?thesis using fin by simp
    next
      case False
      then have "x \<in> set done" using that by simp
      then show ?thesis by (rule D(8))
    qed
  qed
  moreover have "\<not> opens st e" using True by (simp add: opens_def)
  ultimately show ?thesis using r by (intro exI[of _ st] exI[of _ stacks] exI[of _ heap] exI[of _ fs]) simp
next
  case False
  with ev have ub: "unbuilt st e" by simp
  note D = frames_invD[OF inv]
  have eh: "e \<notin> set heap" using D(2)[of e] new by blast
  have efs: "e \<notin> set (fs t)" for t using D(6)[of e t] eh by blast
  let ?t = "start_tid (st e)"
  let ?pit = "parent_it_of st stacks e"
  let ?st1 = "attach st e ?pit"
  have nk: "\<not> (is_Kineto (extra_fields (st e)) \<and> finished (st e))"
    using False by (simp add: skips_def)
  have pre: "parent (st e) = None" "\<not> finished (st e)"
    "\<not> (\<exists>child\<in>set (children (st e)). \<not> finished (st child))"
    "start_time_ns (st e) \<le> declared_end (st e)" "declared_end (st e) \<noteq> time_min"
    using ub by (auto simp: unbuilt_def)
  have e1: "endTimeNS raises ?st1 e = ok (declared_end (st e))"
    using pre(2) by (simp add: endTimeNS_unfinished)
  have par: "parent (?st1 x) = parent (st x)" if "x \<noteq> e" for x
    using that by (simp add: attach_parent)
  have ch1: "chain ?st1 (fs t) = chain st (fs t)" for t
  proof (rule chain_cong)
    fix x assume "x \<in> set (fs t)"
    then have "x \<noteq> e" using efs[of t] by blast
    then show "parent (?st1 x) = parent (st x)" by (rule par)
  qed
  show ?thesis
  proof (cases "start_time_ns (st e) < declared_end (st e)")
    case True
    then have op: "opens st e" using False by (simp add: opens_def)
    let ?stacks' = "stacks(?t \<mapsto> e)"
    have r: "push_event raises (st, stacks, heap) e = Some (Inr (?st1, ?stacks', heap @ [e]))"
      using nk pre True by (simp add: push_event_alt e1 ok_def)
    define fs' where "fs' = fs(?t := e # fs ?t)"
    have pe: "parent (?st1 e) = Some (hd (fs ?t))" if "fs ?t \<noteq> []"
    proof -
      have "stacks ?t = Some (hd (fs ?t))" by (rule D(5)[OF that])
      then have "?pit = Some (hd (fs ?t))" by (simp add: parent_it_of_def)
      then show ?thesis by (simp add: attach_parent)
    qed
    have "frames_inv (done @ [e]) ?st1 ?stacks' (heap @ [e]) fs'"
      unfolding frames_inv_def
    proof (intro conjI allI ballI impI)
      show "distinct (heap @ [e])" using D(1) eh by simp
    next
      fix x assume x: "x \<in> set (heap @ [e])"
      show "x \<in> set (done @ [e])" using x D(2)[of x] by auto
      show "start_time_ns (?st1 x) < declared_end (?st1 x)" using x D(2)[of x] True by auto
      show "declared_end (?st1 x) \<noteq> time_min" using x D(2)[of x] pre(5) by auto
    next
      fix t
      show "chain ?st1 (fs' t)"
      proof (cases "t = ?t")
        case True
        then show ?thesis using pe D(3)[of ?t] by (simp add: fs'_def chain_Cons ch1)
      next
        case False
        then show ?thesis using D(3)[of t] by (simp add: fs'_def ch1)
      qed
      show "distinct (fs' t)" using D(4)[of t] efs[of t] by (cases "t = ?t") (simp_all add: fs'_def)
    next
      fix t assume "fs' t \<noteq> []"
      then show "?stacks' t = Some (hd (fs' t))"
        using D(5)[of t] by (cases "t = ?t") (simp_all add: fs'_def)
    next
      fix t x assume x: "x \<in> set (fs' t)"
      then consider "x = e" "t = ?t" | "x \<in> set (fs t)"
        by (auto simp: fs'_def split: if_splits)
      then have "x \<in> set (heap @ [e]) \<and> \<not> finished (st x) \<and> start_tid (st x) = t"
      proof cases
        case 1
        then show ?thesis using pre(2) by simp
      next
        case 2
        then show ?thesis using D(6)[of x t] by simp
      qed
      then show "x \<in> set (heap @ [e])" "\<not> finished (?st1 x)" "start_tid (?st1 x) = t"
        by simp_all
    next
      fix x assume x: "x \<in> set (heap @ [e])" and nf: "\<not> finished (?st1 x)"
      show "x \<in> set (fs' (start_tid (?st1 x)))"
      proof (cases "x = e")
        case True
        then show ?thesis by (simp add: fs'_def)
      next
        case False
        then have "x \<in> set heap" using x by simp
        moreover have "\<not> finished (st x)" using nf by simp
        ultimately have "x \<in> set (fs (start_tid (st x)))" by (rule D(7))
        then show ?thesis by (cases "start_tid (st x) = ?t") (simp_all add: fs'_def)
      qed
    next
      fix x assume "x \<in> set (done @ [e])"
      then consider "x = e" | "x \<in> set done" by auto
      then show "finished (?st1 x) \<or> x \<in> set (heap @ [e])"
      proof cases
        case 1
        then show ?thesis by simp
      next
        case 2
        then show ?thesis using D(8)[of x] by auto
      qed
    qed
    then show ?thesis using r op
      by (intro exI[of _ ?st1] exI[of _ ?stacks'] exI[of _ "heap @ [e]"] exI[of _ fs']) simp
  next
    case nlt: False
    then have nop: "\<not> opens st e" using pre(5) by (simp add: opens_def)
    let ?st2 = "finish_all ?st1 {e}"
    have mf: "mark_finished raises ?st1 e = ok ?st2"
      using pre by (intro mark_finished_total) simp_all
    have r: "push_event raises (st, stacks, heap) e = Some (Inr (?st2, stacks, heap))"
      using nk pre nlt by (simp add: push_event_alt e1 mf ok_def)
    have "frames_inv (done @ [e]) ?st2 stacks heap fs"
      unfolding frames_inv_def
    proof (intro conjI allI ballI impI)
      show "distinct heap" by (rule D(1))
    next
      fix x assume x: "x \<in> set heap"
      show "x \<in> set (done @ [e])" using D(2)[OF x] by simp
      show "start_time_ns (?st2 x) < declared_end (?st2 x)" using D(2)[OF x] by simp
      show "declared_end (?st2 x) \<noteq> time_min" using D(2)[OF x] by simp
    next
      fix t
      show "chain ?st2 (fs t)" using D(3)[of t] by (simp add: ch1)
      show "distinct (fs t)" by (rule D(4))
    next
      fix t assume "fs t \<noteq> []"
      then show "stacks t = Some (hd (fs t))" by (rule D(5))
    next
      fix t x assume x: "x \<in> set (fs t)"
      have "x \<noteq> e" using x efs[of t] by blast
      then show "x \<in> set heap" "\<not> finished (?st2 x)" "start_tid (?st2 x) = t"
        using D(6)[OF x] by simp_all
    next
      fix x assume x: "x \<in> set heap" and nf: "\<not> finished (?st2 x)"
      have "\<not> finished (st x)" using nf by simp
      then have "x \<in> set (fs (start_tid (st x)))" by (rule D(7)[OF x])
      then show "x \<in> set (fs (start_tid (?st2 x)))" by simp
    next
      fix x assume "x \<in> set (done @ [e])"
      then consider "x = e" | "x \<in> set done" by auto
      then show "finished (?st2 x) \<or> x \<in> set heap"
      proof cases
        case 1
        then show ?thesis by simp
      next
        case 2
        then show ?thesis using D(8)[of x] by auto
      qed
    qed
    then show ?thesis using r nop
      by (intro exI[of _ ?st2] exI[of _ stacks] exI[of _ heap] exI[of _ fs]) simp
  qed
qed

lemma bind_outcome_assoc:
  "bind_outcome (bind_outcome m f) g = bind_outcome m (\<lambda>x. bind_outcome (f x) g)"
  by (simp add: bind_outcome_def split: option.splits sum.splits)

lemma bind_outcome_ok_right: "bind_outcome m ok = m"
  by (simp add: bind_outcome_def ok_def split: option.splits sum.splits)

lemma replay_append:
  "replay raises tie (xs @ ys) s = bind_outcome (replay raises tie xs s) (replay raises tie ys)"
proof (induction xs arbitrary: s)
  case Nil
  show ?case by simp
next
  case (Cons x xs)
  have "replay raises tie (xs @ ys)
        = (\<lambda>s. bind_outcome (replay raises tie xs s) (replay raises tie ys))"
    by (rule ext) (rule Cons)
  then show ?case by (simp add: bind_outcome_assoc)
qed

lemma recorded_prefix: "recorded st (xs @ ys) \<Longrightarrow> recorded st xs"
  by (auto simp: recorded_def)

lemma unbuilt_later:
  assumes "unbuilt st0 e" "st e = st0 e" "\<And>c. finished (st0 c) \<Longrightarrow> finished (st c)"
  shows "unbuilt st e"
  using assms by (simp add: unbuilt_def declared_end_cong[of "st e" "st0 e"])

lemma replay_total:
  assumes "frames_inv done st stacks heap fs" and "replay_inv st0 done st stacks heap"
    and "recorded st0 (done @ events)"
  shows "\<exists>st' stacks' heap' fs'.
           replay raises tie events (st, stacks, heap) = Some (Inr (st', stacks', heap'))
         \<and> frames_inv (done @ events) st' stacks' heap' fs'
         \<and> replay_inv st0 (done @ events) st' stacks' heap'"
  using assms
proof (induction events arbitrary: st stacks heap fs "done")
  case Nil
  then show ?case by (auto simp: ok_def)
next
  case (Cons e events)
  have new: "e \<notin> set done" using Cons.prems(3) by (auto simp: recorded_def)
  have ev0: "skips st0 e \<or> unbuilt st0 e" using Cons.prems(3) by (auto simp: recorded_def)
  from pop_ends_total[OF Cons.prems(1), of raises tie "Some (start_time_ns (st e))"]
  obtain st1 stacks1 heap1 fs1 where
    pe: "pop_ends raises tie (Some (start_time_ns (st e))) (st, stacks, heap)
         = Some (Inr (st1, stacks1, heap1))" and
    fi1: "frames_inv done st1 stacks1 heap1 fs1"
    by blast
  have ri1: "replay_inv st0 done st1 stacks1 heap1"
    by (rule pop_ends_inv[OF pe Cons.prems(2)])
  have same: "st1 e = st0 e" using replay_inv_same[OF ri1] new by simp
  have ev1: "skips st1 e \<or> unbuilt st1 e"
  proof (cases "skips st0 e")
    case True
    then show ?thesis by (simp add: skips_def same)
  next
    case False
    then have "unbuilt st0 e" using ev0 by simp
    then have "unbuilt st1 e"
      using same replay_inv_fields(4)[OF ri1] by (rule unbuilt_later)
    then show ?thesis by simp
  qed
  from push_event_total[OF fi1 new ev1, of raises]
  obtain st2 stacks2 heap2 fs2 where
    pu: "push_event raises (st1, stacks1, heap1) e = Some (Inr (st2, stacks2, heap2))" and
    fi2: "frames_inv (done @ [e]) st2 stacks2 heap2 fs2"
    by blast
  have ri2: "replay_inv st0 (done @ [e]) st2 stacks2 heap2"
    by (rule push_event_inv[OF ri1 new pu])
  have rec2: "recorded st0 ((done @ [e]) @ events)" using Cons.prems(3) by simp
  from Cons.IH[OF fi2 ri2 rec2] obtain st' stacks' heap' fs' where
    re: "replay raises tie events (st2, stacks2, heap2) = Some (Inr (st', stacks', heap'))" and
    fi': "frames_inv ((done @ [e]) @ events) st' stacks' heap' fs'" and
    ri': "replay_inv st0 ((done @ [e]) @ events) st' stacks' heap'"
    by blast
  have "replay raises tie (e # events) (st, stacks, heap) = Some (Inr (st', stacks', heap'))"
    by (simp add: pe pu re)
  then show ?case using fi' ri' by auto
qed

lemma build_tree_total:
  assumes "recorded st0 events"
  shows "\<exists>st'. build_tree raises tie events st0 = Some (Inr st')
              \<and> (\<forall>x\<in>set events. finished (st' x))"
proof -
  from replay_total[OF frames_inv_init replay_inv_init, of st0 events raises tie] assms
  obtain st1 stacks1 heap1 fs1 where
    re: "replay raises tie events (st0, Map.empty, []) = Some (Inr (st1, stacks1, heap1))" and
    fi1: "frames_inv events st1 stacks1 heap1 fs1"
    by auto
  from pop_ends_total[OF fi1, of raises tie None] obtain st' stacks' heap' fs' where
    pe: "pop_ends raises tie None (st1, stacks1, heap1) = Some (Inr (st', stacks', heap'))" and
    fi': "frames_inv events st' stacks' heap' fs'"
    by blast
  have "heap' = []" by (rule pop_ends_None_empty[OF pe])
  then have "\<forall>x\<in>set events. finished (st' x)" using frames_invD(8)[OF fi'] by auto
  moreover have "build_tree raises tie events st0 = Some (Inr st')"
    by (simp add: build_tree_def re pe ok_def)
  ultimately show ?thesis by blast
qed

lemma replay_next_event:
  assumes "recorded st0 (pre @ e # post)"
  shows "\<exists>st stacks heap st2 stacks2 heap2.
           replay raises tie pre (st0, Map.empty, []) = Some (Inr (st, stacks, heap))
         \<and> replay raises tie (pre @ [e]) (st0, Map.empty, []) = Some (Inr (st2, stacks2, heap2))
         \<and> heap2 = filter (\<lambda>x. start_time_ns (st0 e) \<le> declared_end (st0 x)) heap
                   @ (if opens st0 e then [e] else [])
         \<and> (\<forall>x\<in>set heap. declared_end (st0 x) < start_time_ns (st0 e) \<longrightarrow> finished (st2 x))"
proof -
  have rp: "recorded st0 pre" by (rule recorded_prefix[OF assms])
  have new: "e \<notin> set pre" and ev0: "skips st0 e \<or> unbuilt st0 e"
    using assms by (auto simp: recorded_def)
  from replay_total[OF frames_inv_init replay_inv_init, of st0 pre raises tie] rp
  obtain st stacks heap fs where
    re: "replay raises tie pre (st0, Map.empty, []) = Some (Inr (st, stacks, heap))" and
    fi: "frames_inv pre st stacks heap fs" and
    ri: "replay_inv st0 pre st stacks heap"
    by auto
  have de: "declared_end (st x) = declared_end (st0 x)" for x
    using replay_inv_fields[OF ri, of x] by (intro declared_end_cong) simp_all
  have st_e: "start_time_ns (st e) = start_time_ns (st0 e)"
    by (rule replay_inv_fields(1)[OF ri])
  from pop_ends_total[OF fi, of raises tie "Some (start_time_ns (st0 e))"]
  obtain st1 stacks1 heap1 fs1 where
    pe: "pop_ends raises tie (Some (start_time_ns (st0 e))) (st, stacks, heap)
         = Some (Inr (st1, stacks1, heap1))" and
    fi1: "frames_inv pre st1 stacks1 heap1 fs1"
    by blast
  have pend: "\<forall>x\<in>set heap. start_time_ns (st x) < declared_end (st x)
             \<and> declared_end (st x) \<noteq> time_min"
    using frames_invD(2)[OF fi] by blast
  note post = pop_ends_post[OF pe pend]
  have h1: "heap1 = filter (\<lambda>x. start_time_ns (st0 e) \<le> declared_end (st0 x)) heap"
    using post by (simp add: de)
  have f1: "finished (st1 x)" if "x \<in> set heap" "declared_end (st0 x) < start_time_ns (st0 e)"
    for x using post that by (simp add: de)
  have ri1: "replay_inv st0 pre st1 stacks1 heap1" by (rule pop_ends_inv[OF pe ri])
  have same: "st1 e = st0 e" using replay_inv_same[OF ri1] new by simp
  have sk: "skips st1 e = skips st0 e" and op: "opens st1 e = opens st0 e"
    by (simp_all add: skips_def opens_def same)
  have ev1: "skips st1 e \<or> unbuilt st1 e"
  proof (cases "skips st0 e")
    case True
    then show ?thesis by (simp add: sk)
  next
    case False
    then have "unbuilt st0 e" using ev0 by simp
    then have "unbuilt st1 e"
      using same replay_inv_fields(4)[OF ri1] by (rule unbuilt_later)
    then show ?thesis by simp
  qed
  from push_event_total[OF fi1 new ev1, of raises]
  obtain st2 stacks2 heap2 where
    pu: "push_event raises (st1, stacks1, heap1) e = Some (Inr (st2, stacks2, heap2))" and
    h2: "heap2 = heap1 @ (if opens st1 e then [e] else [])"
    by blast
  have keep: "finished (st2 x)" if "finished (st1 x)" for x
  proof (cases "skips st1 e")
    case True
    then have "(st2, stacks2, heap2) = (st1, stacks1, heap1)" by (rule push_event_skips[OF pu])
    then show ?thesis using that by simp
  next
    case False
    show ?thesis using push_event_summary(5)[OF pu False, of x] that by simp
  qed
  have step: "replay raises tie [e] (st, stacks, heap) = Some (Inr (st2, stacks2, heap2))"
    by (simp add: st_e pe pu ok_def)
  have r2: "replay raises tie (pre @ [e]) (st0, Map.empty, []) = Some (Inr (st2, stacks2, heap2))"
    by (simp only: replay_append re bind_outcome_Some_Inr step)
  have "heap2 = filter (\<lambda>x. start_time_ns (st0 e) \<le> declared_end (st0 x)) heap
                   @ (if opens st0 e then [e] else [])"
    by (simp add: h2 h1 op)
  moreover have "\<forall>x\<in>set heap. declared_end (st0 x) < start_time_ns (st0 e)
                   \<longrightarrow> finished (st2 x)"
    using f1 keep by blast
  ultimately show ?thesis using re r2 by blast
qed

section \<open>The replay on the example, and the rule for pending ends\<close>

text \<open>
  Two operations on one thread, A:[s1,e1] at address 0 and B:[s2,e2] at address 1.
\<close>

definition two_store :: "time_t \<Rightarrow> time_t \<Rightarrow> time_t \<Rightarrow> time_t \<Rightarrow> store" where
  "two_store s1 e1 s2 e2 = (\<lambda>_. torch_op s1 e1 1)(1 := torch_op s2 e2 1)"

lemma pick_two: "pick tie [a, b] = a \<or> pick tie [a, b] = b"
  by (auto simp: pick_def)

lemma two_events_tree:
  assumes "time_min < s1" "s1 < e1" "s1 \<le> s2" "s2 < e2"
  shows "node_of (build_tree raises tie [0, 1] (two_store s1 e1 s2 e2)) 0
           = Some (Inr (None, if s2 \<le> e1 then [1] else [], True))"
    and "node_of (build_tree raises tie [0, 1] (two_store s1 e1 s2 e2)) 1
           = Some (Inr (if s2 \<le> e1 then Some 0 else None, [], True))"
proof -
  have tm: "e1 \<noteq> - 9223372036854775808" "e2 \<noteq> - 9223372036854775808"
    using assms by (simp_all add: time_min_def)
  consider "e1 < s2" | "s2 \<le> e1" "e1 < e2" | "s2 \<le> e1" "e2 < e1"
    | "s2 \<le> e1" "e1 = e2" "pick tie [0, 1] = 0" | "s2 \<le> e1" "e1 = e2" "pick tie [0, 1] = 1"
    using pick_two[of tie 0 1] by fastforce
  then have "node_of (build_tree raises tie [0, 1] (two_store s1 e1 s2 e2)) 0
           = Some (Inr (None, if s2 \<le> e1 then [1] else [], True))
      \<and> node_of (build_tree raises tie [0, 1] (two_store s1 e1 s2 e2)) 1
           = Some (Inr (if s2 \<le> e1 then Some 0 else None, [], True))"
  proof cases
    case 1
    then show ?thesis using assms tm
      by (simp add: build_eval two_store_def ok_def)
  next
    case 2
    then show ?thesis using assms tm
      by (simp add: build_eval two_store_def ok_def)
  next
    case 3
    then show ?thesis using assms tm
      by (simp add: build_eval two_store_def ok_def)
  next
    case 4
    then show ?thesis using assms tm
      by (simp add: build_eval two_store_def ok_def)
  next
    case 5
    then show ?thesis using assms tm
      by (simp add: build_eval two_store_def ok_def)
  qed
  then show "node_of (build_tree raises tie [0, 1] (two_store s1 e1 s2 e2)) 0
           = Some (Inr (None, if s2 \<le> e1 then [1] else [], True))"
    and "node_of (build_tree raises tie [0, 1] (two_store s1 e1 s2 e2)) 1
           = Some (Inr (if s2 \<le> e1 then Some 0 else None, [], True))"
    by simp_all
qed

text \<open>
  Two events on one thread that touch: A:[0,10] and B:[10,20]. The state of the builder
  after both were pushed.
\<close>

definition touch_store :: store where
  "touch_store = (\<lambda>_. torch_op 0 10 1)(1 := torch_op 10 20 1)"

definition touch_mid :: store where
  "touch_mid = touch_store(0 := (torch_op 0 10 1)\<lparr>children := [1]\<rparr>,
                           1 := (torch_op 10 20 1)\<lparr>parent := Some 0\<rparr>)"

lemma replay_touch_pre:
  "replay False hd [0] (touch_store, Map.empty, []) = Some (Inr (touch_store, [1 \<mapsto> 0], [0]))"
  by (simp add: build_eval touch_store_def ok_def; auto simp: fun_eq_iff)

lemma replay_touch:
  "replay False hd [0, 1] (touch_store, Map.empty, []) = Some (Inr (touch_mid, [1 \<mapsto> 1], [0, 1]))"
  by (simp add: build_eval touch_store_def touch_mid_def ok_def; auto simp: fun_eq_iff)

lemma build_tree_touch:
  "node_of (build_tree False hd [0, 1] touch_store) 1 = Some (Inr (Some 0, [], True))"
  by (simp add: build_eval touch_store_def ok_def)

text \<open>
  The state of the builder on A, B, C after A and B were pushed, and after C was pushed.
\<close>

definition abc_mid :: store where
  "abc_mid = abc_store(0 := (torch_op 0 100 1)\<lparr>children := [1]\<rparr>,
                       1 := (torch_op 10 50 1)\<lparr>parent := Some 0\<rparr>)"

lemma replay_abc_pre:
  "replay False hd [0, 1] (abc_store, Map.empty, []) = Some (Inr (abc_mid, [1 \<mapsto> 1], [0, 1]))"
  by (simp add: build_eval abc_store_def abc_mid_def ok_def; auto simp: fun_eq_iff)

definition abc_late :: store where
  "abc_late = abc_store(0 := (torch_op 0 100 1)\<lparr>children := [1, 2]\<rparr>,
                        1 := (torch_op 10 50 1)\<lparr>parent := Some 0, finished := True\<rparr>,
                        2 := (torch_op 60 90 1)\<lparr>parent := Some 0\<rparr>)"

lemma replay_abc:
  "replay False hd [0, 1, 2] (abc_store, Map.empty, []) = Some (Inr (abc_late, [1 \<mapsto> 2], [0, 2]))"
  by (simp add: build_eval abc_store_def abc_late_def ok_def; auto simp: fun_eq_iff)



section \<open>Instant events\<close>

text \<open>An allocation event at \<open>start_ns\<close> on thread \<open>tid\<close>.\<close>

definition allocation :: "time_t \<Rightarrow> tid_t \<Rightarrow> result" where
  "allocation start_ns tid =
     \<lparr>start_time_ns = start_ns, start_tid = tid, extra_fields = Allocation 4096 16 None,
      parent = None, children = [], finished = False\<rparr>"

text \<open>
  An allocation whose start time is the unset sentinel, followed on the same thread by
  an operation [5,10].
\<close>

definition sentinel_alloc_store :: store where
  "sentinel_alloc_store = (\<lambda>_. torch_op 5 10 1)(0 := allocation time_min 1)"

text \<open>
  \<^verbatim>\<open>push_event\<close> compares the end time with the sentinel before it finishes an event of
  no duration, so an allocation that starts at the sentinel is made the open frame of
  its thread: the operation after it becomes its child, and the allocation is never
  finished.
\<close>

theorem allocation_at_sentinel_start_stays_open:
  "node_of (build_tree False hd [0, 1] sentinel_alloc_store) 0 = Some (Inr (None, [1], False))
   \<and> node_of (build_tree False hd [0, 1] sentinel_alloc_store) 1 = Some (Inr (Some 0, [], True))"
  by (simp add: build_eval sentinel_alloc_store_def allocation_def)

lemma instant_end:
  assumes "extra_fields (st e) = Allocation p sz aid \<or> extra_fields (st e) = OutOfMemory"
  shows "endTimeNS raises st e = Some (Inr (start_time_ns (st e)))"
  using assms by (subst endTimeNS.simps) (auto simp: SOFT_ASSERT_def ok_def)

lemma instant_not_opens:
  assumes "extra_fields (st e) = Allocation p sz aid \<or> extra_fields (st e) = OutOfMemory"
    and "start_time_ns (st e) \<noteq> time_min"
  shows "\<not> skips st e" and "\<not> opens st e"
  using assms by (auto simp: skips_def opens_def declared_end_def)

text \<open>
  C10 (amended). An Allocation or OutOfMemory event reports its start time as its end
  time. When that start time is not the unset sentinel, \<^verbatim>\<open>push_event\<close> finishes the
  event at once and leaves the open frames and the pending ends as they were, and after
  \<^verbatim>\<open>build_tree\<close> on distinct events the event is finished and has the children it had
  before: the builder attaches none to it.
\<close>

theorem instant_event_closed_on_insertion:
  assumes "extra_fields (st e) = Allocation p sz aid \<or> extra_fields (st e) = OutOfMemory"
  shows "endTimeNS raises st e = Some (Inr (start_time_ns (st e)))
     \<and> (start_time_ns (st e) \<noteq> time_min
          \<longrightarrow> push_event raises (st, stacks, heap) e = Some (Inr (st1, stacks1, heap1))
          \<longrightarrow> finished (st1 e) \<and> stacks1 = stacks \<and> heap1 = heap)
     \<and> (start_time_ns (st e) \<noteq> time_min
          \<longrightarrow> build_tree raises tie sorted_events st = Some (Inr st')
          \<longrightarrow> distinct sorted_events
          \<longrightarrow> e \<in> set sorted_events
          \<longrightarrow> finished (st' e) \<and> children (st' e) = children (st e))"
proof (intro conjI impI)
  show "endTimeNS raises st e = Some (Inr (start_time_ns (st e)))"
    by (rule instant_end[where st = st and e = e, OF assms])
next
  assume ns: "start_time_ns (st e) \<noteq> time_min"
    and push: "push_event raises (st, stacks, heap) e = Some (Inr (st1, stacks1, heap1))"
  note no = instant_not_opens[where st = st and e = e, OF assms ns]
  from push_event_effect(4)[OF push no]
  show "finished (st1 e)" "stacks1 = stacks" "heap1 = heap" by simp_all
next
  assume ns: "start_time_ns (st e) \<noteq> time_min"
    and bt: "build_tree raises tie sorted_events st = Some (Inr st')"
    and d: "distinct sorted_events" and e: "e \<in> set sorted_events"
  note no = instant_not_opens[where st = st and e = e, OF assms ns]
  from build_tree_inv[OF bt d] obtain stacks' heap'
    where inv: "replay_inv st sorted_events st' stacks' heap'" by blast
  show "finished (st' e)" by (rule replay_inv_closed_now[OF inv e no])
  have "filter (\<lambda>x. \<not> skips st x \<and> parent (st' x) = Some e) sorted_events = []"
  proof (rule ccontr)
    assume "filter (\<lambda>x. \<not> skips st x \<and> parent (st' x) = Some e) sorted_events \<noteq> []"
    then obtain x where x: "x \<in> set sorted_events" "\<not> skips st x" "parent (st' x) = Some e"
      by (auto simp: filter_empty_conv)
    from x(1) obtain as bs where "sorted_events = as @ x # bs" by (auto dest: split_list)
    from replay_inv_parent[OF inv this x(2,3)] have "opens st e" by (auto dest: openedD)
    then show False using no(2) by simp
  qed
  then show "children (st' e) = children (st e)"
    using replay_inv_children[OF inv, of e] by simp
qed

text \<open>An operation [0,100] and an allocation at 10 on the same thread, and their tree.\<close>

definition alloc_store :: store where
  "alloc_store = (\<lambda>_. torch_op 0 100 1)(1 := allocation 10 1)"

definition alloc_tree :: store where
  "alloc_tree = (\<lambda>_. torch_op 0 100 1)
     (0 := (torch_op 0 100 1)\<lparr>children := [1], finished := True\<rparr>,
      1 := (allocation 10 1)\<lparr>parent := Some 0, finished := True\<rparr>)"

lemma build_tree_alloc: "build_tree False hd [0, 1] alloc_store = Some (Inr alloc_tree)"
  by (simp add: build_eval alloc_store_def alloc_tree_def allocation_def)
     (auto simp: fun_eq_iff)

theorem instant_event_closed_on_insertion_witness:
  "extra_fields (alloc_store 1) = Allocation 4096 16 None
   \<and> start_time_ns (alloc_store 1) \<noteq> time_min
   \<and> build_tree False hd [0, 1] alloc_store = Some (Inr alloc_tree)
   \<and> distinct [0, 1 :: nat]
   \<and> endTimeNS False alloc_store 1 = Some (Inr 10)
   \<and> finished (alloc_tree 1)
   \<and> children (alloc_tree 1) = []"
proof -
  have a: "extra_fields (alloc_store 1) = Allocation 4096 16 None
           \<or> extra_fields (alloc_store 1) = OutOfMemory"
    by (simp add: alloc_store_def allocation_def)
  have s: "start_time_ns (alloc_store 1) \<noteq> time_min"
    by (simp add: alloc_store_def allocation_def time_min_def)
  have c: "children (alloc_store 1) = []" "start_time_ns (alloc_store 1) = 10"
    by (simp_all add: alloc_store_def allocation_def)
  from instant_event_closed_on_insertion[where st = alloc_store and e = 1
      and raises = False and tie = hd and sorted_events = "[0, 1]" and st' = alloc_tree, OF a]
    s build_tree_alloc c
  have "endTimeNS False alloc_store 1 = Some (Inr 10)
        \<and> finished (alloc_tree 1) \<and> children (alloc_tree 1) = []"
    by simp
  then show ?thesis using a s build_tree_alloc by (simp add: alloc_store_def allocation_def)
qed

section \<open>What the merge of the external trace changes\<close>

text \<open>
  An event that starts the flow \<open>k\<close>: an external activity whose flow has the id \<open>k\<close>,
  the type \<^verbatim>\<open>kLinkAsyncCpuGpu\<close> and the start flag. This is the condition under which
  the first loop of \<^verbatim>\<open>setParents\<close> enters an event into \<^verbatim>\<open>flow_map\<close>.
\<close>

definition is_flow_start :: "nat \<Rightarrow> result \<Rightarrow> bool" where
  "is_flow_start k r =
     (case extra_fields r of
        Kineto dur f_id f_type f_start lnk \<Rightarrow> f_type = kLinkAsyncCpuGpu \<and> f_start \<and> f_id = k
      | _ \<Rightarrow> False)"

text \<open>
  The parent that the second loop leaves in an event: the start of its flow when the
  event continues a flow of type \<^verbatim>\<open>kLinkAsyncCpuGpu\<close> that is in the map, and the parent
  it had otherwise.
\<close>

definition decided_parent :: "flow_map \<Rightarrow> result \<Rightarrow> rid option" where
  "decided_parent fm r =
     (case extra_fields r of
        Kineto dur f_id f_type f_start lnk \<Rightarrow>
          (case fm f_id of
             Some s \<Rightarrow> if f_type = kLinkAsyncCpuGpu \<and> \<not> f_start then Some s else parent r
           | None \<Rightarrow> parent r)
      | _ \<Rightarrow> parent r)"

lemma for_each_Cons_ok:
  "for_each body (x # xs) s = Some (Inr s') \<longleftrightarrow>
     (\<exists>s1. body s x = Some (Inr s1) \<and> for_each body xs s1 = Some (Inr s'))"
  by (simp add: bind_outcome_eq_ok)

lemma setParents_first_effect:
  assumes "setParents_first use_rocm (st, fm) e = Some (Inr (st', fm'))"
  shows "st' = (if is_Kineto (extra_fields (st e))
                then st(e := (st e)\<lparr>parent := linked_activity (extra_fields (st e))\<rparr>) else st)"
    and "fm' = (\<lambda>k. case fm k of Some v \<Rightarrow> Some v
                     | None \<Rightarrow> if is_flow_start k (st e) then Some e else None)"
proof -
  have "st' = (if is_Kineto (extra_fields (st e))
                then st(e := (st e)\<lparr>parent := linked_activity (extra_fields (st e))\<rparr>) else st)
      \<and> (\<forall>k. fm' k = (case fm k of Some v \<Rightarrow> Some v
                     | None \<Rightarrow> if is_flow_start k (st e) then Some e else None))"
    using assms
    by (auto simp: setParents_first_def is_flow_start_def bind_outcome_eq_ok
        split: extra_fields.splits if_splits option.splits)
  then show "st' = (if is_Kineto (extra_fields (st e))
                then st(e := (st e)\<lparr>parent := linked_activity (extra_fields (st e))\<rparr>) else st)"
    and "fm' = (\<lambda>k. case fm k of Some v \<Rightarrow> Some v
                     | None \<Rightarrow> if is_flow_start k (st e) then Some e else None)"
    by (simp_all add: fun_eq_iff)
qed

lemma is_flow_start_parent_upd [simp]:
  "is_flow_start k (r\<lparr>parent := p\<rparr>) = is_flow_start k r"
  by (simp add: is_flow_start_def)

lemma first_pass_effect:
  assumes "for_each (setParents_first use_rocm) results (st, fm) = Some (Inr (st', fm'))"
  shows "\<forall>x. st' x = (if x \<in> set results \<and> is_Kineto (extra_fields (st x))
                      then (st x)\<lparr>parent := linked_activity (extra_fields (st x))\<rparr>
                      else st x)"
    and "fm' = (\<lambda>k. case fm k of Some v \<Rightarrow> Some v
                     | None \<Rightarrow> List.find (\<lambda>x. is_flow_start k (st x)) results)"
  using assms
proof (induction results arbitrary: st fm)
  case Nil
  { case 1 then show ?case by simp }
  { case 2 then show ?case by (auto simp: fun_eq_iff split: option.splits) }
next
  case (Cons e es)
  { case 1
    then obtain st1 fm1 where
      step: "setParents_first use_rocm (st, fm) e = Some (Inr (st1, fm1))" and
      rest: "for_each (setParents_first use_rocm) es (st1, fm1) = Some (Inr (st', fm'))"
      by (auto simp: bind_outcome_eq_ok)
    note e = setParents_first_effect[OF step]
    show ?case using Cons.IH(1)[OF rest] by (auto simp: e(1)) }
  { case 2
    then obtain st1 fm1 where
      step: "setParents_first use_rocm (st, fm) e = Some (Inr (st1, fm1))" and
      rest: "for_each (setParents_first use_rocm) es (st1, fm1) = Some (Inr (st', fm'))"
      by (auto simp: bind_outcome_eq_ok)
    note e = setParents_first_effect[OF step]
    have fs: "is_flow_start k (st1 x) = is_flow_start k (st x)" for k x
      by (simp add: e(1))
    show ?case unfolding Cons.IH(2)[OF rest] fs
      by (auto simp: e(2) fun_eq_iff split: option.splits) }
qed

lemma decided_parent_cong:
  "extra_fields r = extra_fields r' \<Longrightarrow> parent r = parent r'
   \<Longrightarrow> decided_parent fm r = decided_parent fm r'"
  by (cases "extra_fields r'") (auto simp: decided_parent_def split: option.splits)

lemma decided_parent_idem:
  "extra_fields r' = extra_fields r \<Longrightarrow> parent r' = decided_parent fm r
   \<Longrightarrow> decided_parent fm r' = decided_parent fm r"
  by (auto simp: decided_parent_def split: extra_fields.splits option.splits)

lemma decided_parent_other:
  "\<not> is_Kineto (extra_fields r) \<Longrightarrow> decided_parent fm r = parent r"
  by (auto simp: decided_parent_def split: extra_fields.splits)

lemma decided_parent_None: "decided_parent fm r = None \<Longrightarrow> parent r = None"
  by (auto simp: decided_parent_def split: extra_fields.splits option.splits if_splits)

lemma setParents_second_effect:
  assumes "setParents_second raises fm st e = Some (Inr st')"
  defines "dp \<equiv> decided_parent fm (st e)"
  defines "att \<equiv> is_Kineto (extra_fields (st e)) \<and> dp \<noteq> None"
  shows "\<And>x. extra_fields (st' x) = extra_fields (st x)"
    and "\<And>x. start_time_ns (st' x) = start_time_ns (st x)"
    and "\<And>x. start_tid (st' x) = start_tid (st x)"
    and "\<And>x. parent (st' x) = (if x = e then dp else parent (st x))"
    and "\<And>x. children (st' x) = (if att \<and> dp = Some x then children (st x) @ [e]
                                    else children (st x))"
    and "\<And>x. finished (st' x) \<longleftrightarrow> finished (st x) \<or> (x = e \<and> att)"
proof -
  have "st' = (if att then finish_all (attach st e dp) {e} else st)"
  proof (cases "extra_fields (st e)")
    case (Kineto dur f_id f_type f_start lnk)
    define st1 where "st1 = (case fm f_id of
                       Some s \<Rightarrow> if f_type = kLinkAsyncCpuGpu \<and> \<not> f_start
                                 then st(e := (st e)\<lparr>parent := Some s\<rparr>) else st
                     | None \<Rightarrow> st)"
    have p1: "parent (st1 e) = dp"
      by (auto simp: st1_def dp_def decided_parent_def Kineto split: option.splits)
    have o1: "st1 x = st x" if "x \<noteq> e" for x
      using that by (auto simp: st1_def split: option.splits)
    have f1: "st1 e = (st e)\<lparr>parent := dp\<rparr>"
      by (auto simp: st1_def dp_def decided_parent_def Kineto split: option.splits)
    from assms(1) have run: "(case parent (st1 e) of
                Some p \<Rightarrow> mark_finished raises
                    (st1(p := (st1 p)\<lparr>children := children (st1 p) @ [e]\<rparr>)) e
              | None \<Rightarrow> ok st1) = Some (Inr st')"
      unfolding setParents_second_def Kineto extra_fields.case Let_def st1_def .
    show ?thesis
    proof (cases dp)
      case None
      then have "st' = st1" using run p1 by simp
      moreover have "st1 = st" using p1[unfolded st1_def] None
        by (auto simp: st1_def split: option.splits if_splits)
      ultimately show ?thesis using None by (simp add: att_def)
    next
      case (Some p)
      then have mf: "mark_finished raises
                    (st1(p := (st1 p)\<lparr>children := children (st1 p) @ [e]\<rparr>)) e = Some (Inr st')"
        using run p1 by simp
      have a: "st1(p := (st1 p)\<lparr>children := children (st1 p) @ [e]\<rparr>) = attach st e dp"
        using f1 o1 by (auto simp: attach_def Some Let_def fun_eq_iff)
      have "st' = finish_all (attach st e dp) {e}"
        using mark_finished_ok(2)[OF mf] unfolding a by (simp only: finish_all_one)
      then show ?thesis using Some Kineto by (simp add: att_def)
    qed
  qed (use assms in \<open>simp_all add: setParents_second_def att_def\<close>)
  note st' = this
  show "\<And>x. extra_fields (st' x) = extra_fields (st x)"
    "\<And>x. start_time_ns (st' x) = start_time_ns (st x)"
    "\<And>x. start_tid (st' x) = start_tid (st x)"
    by (simp_all add: st')
  show "\<And>x. parent (st' x) = (if x = e then dp else parent (st x))"
    by (auto simp: st' attach_parent att_def dp_def decided_parent_other
        dest: decided_parent_None)
  show "\<And>x. children (st' x) = (if att \<and> dp = Some x then children (st x) @ [e]
                                    else children (st x))"
    by (auto simp: st' attach_children)
  show "\<And>x. finished (st' x) \<longleftrightarrow> finished (st x) \<or> (x = e \<and> att)"
    by (auto simp: st')
qed

lemma second_pass_effect:
  assumes "for_each (setParents_second raises fm) results st = Some (Inr st')"
  shows "(\<forall>x. extra_fields (st' x) = extra_fields (st x)
             \<and> start_time_ns (st' x) = start_time_ns (st x)
             \<and> start_tid (st' x) = start_tid (st x)
             \<and> (finished (st x) \<longrightarrow> finished (st' x))
             \<and> set (children (st x)) \<subseteq> set (children (st' x)))
       \<and> (\<forall>x. parent (st' x) = (if x \<in> set results then decided_parent fm (st x)
                                  else parent (st x)))
       \<and> (\<forall>x\<in>set results. is_Kineto (extra_fields (st x)) \<longrightarrow>
             (\<forall>p. parent (st' x) = Some p \<longrightarrow> finished (st' x) \<and> x \<in> set (children (st' p))))"
  using assms
proof (induction results arbitrary: st)
  case Nil
  then show ?case by simp
next
  case (Cons e es)
  then obtain st1 where
    step: "setParents_second raises fm st e = Some (Inr st1)" and
    rest: "for_each (setParents_second raises fm) es st1 = Some (Inr st')"
    by (auto simp: bind_outcome_eq_ok)
  note s = setParents_second_effect[OF step]
  note ih = Cons.IH[OF rest]
  have dp: "decided_parent fm (st1 x) = decided_parent fm (st x)" for x
  proof (cases "x = e")
    case True
    show ?thesis unfolding True
      by (rule decided_parent_idem) (simp_all add: s)
  next
    case False
    then show ?thesis by (intro decided_parent_cong) (simp_all add: s)
  qed
  show ?case
  proof (intro conjI allI ballI impI)
    fix x
    show "extra_fields (st' x) = extra_fields (st x)" using ih by (simp add: s)
    show "start_time_ns (st' x) = start_time_ns (st x)" using ih by (simp add: s)
    show "start_tid (st' x) = start_tid (st x)" using ih by (simp add: s)
    show "finished (st' x)" if "finished (st x)" using ih that by (simp add: s)
    have "set (children (st x)) \<subseteq> set (children (st1 x))" by (auto simp: s)
    then show "set (children (st x)) \<subseteq> set (children (st' x))" using ih by blast
    show "parent (st' x) = (if x \<in> set (e # es) then decided_parent fm (st x) else parent (st x))"
      using ih by (auto simp: dp s)
  next
    fix x p
    assume x: "x \<in> set (e # es)" and k: "is_Kineto (extra_fields (st x))"
      and p: "parent (st' x) = Some p"
    show "finished (st' x)" "x \<in> set (children (st' p))"
    proof -
      have "finished (st' x) \<and> x \<in> set (children (st' p))"
      proof (cases "x \<in> set es")
        case True
        then show ?thesis using ih k p by (simp add: s)
      next
        case False
        then have xe: "x = e" using x by simp
        have "parent (st' e) = decided_parent fm (st e)" using ih False xe by (simp add: s)
        then have d: "decided_parent fm (st e) = Some p" using p xe by simp
        have "finished (st1 e)" "e \<in> set (children (st1 p))"
          using d k xe by (simp_all add: s)
        then show ?thesis using ih xe by blast
      qed
      then show "finished (st' x)" "x \<in> set (children (st' p))" by simp_all
    qed
  qed
qed

text \<open>Two stores that differ in thread ids only.\<close>

definition same_but_tid :: "store \<Rightarrow> store \<Rightarrow> bool" where
  "same_but_tid st st' \<longleftrightarrow> (\<forall>x. st' x = (st x)\<lparr>start_tid := start_tid (st' x)\<rparr>)"

lemma same_but_tid_refl: "same_but_tid st st"
  by (simp add: same_but_tid_def)

lemma same_but_tid_trans:
  "same_but_tid a b \<Longrightarrow> same_but_tid b c \<Longrightarrow> same_but_tid a c"
  unfolding same_but_tid_def
proof
  fix x assume ab: "\<forall>x. b x = (a x)\<lparr>start_tid := start_tid (b x)\<rparr>"
    and bc: "\<forall>x. c x = (b x)\<lparr>start_tid := start_tid (c x)\<rparr>"
  have "c x = (b x)\<lparr>start_tid := start_tid (c x)\<rparr>" using bc by blast
  also have "b x = (a x)\<lparr>start_tid := start_tid (b x)\<rparr>" using ab by blast
  finally show "c x = (a x)\<lparr>start_tid := start_tid (c x)\<rparr>" by simp
qed

lemma same_but_tid_upd: "same_but_tid st (st(r := (st r)\<lparr>start_tid := t\<rparr>))"
  by (simp add: same_but_tid_def)

lemma same_but_tid_fields:
  assumes "same_but_tid st st'"
  shows "parent (st' x) = parent (st x)" "children (st' x) = children (st x)"
    "finished (st' x) = finished (st x)" "extra_fields (st' x) = extra_fields (st x)"
    "start_time_ns (st' x) = start_time_ns (st x)"
proof -
  have e: "st' x = (st x)\<lparr>start_tid := start_tid (st' x)\<rparr>"
    using assms by (simp add: same_but_tid_def)
  show "parent (st' x) = parent (st x)" by (subst e) simp
  show "children (st' x) = children (st x)" by (subst e) simp
  show "finished (st' x) = finished (st x)" by (subst e) simp
  show "extra_fields (st' x) = extra_fields (st x)" by (subst e) simp
  show "start_time_ns (st' x) = start_time_ns (st x)" by (subst e) simp
qed

lemma setKinetoTID_frame_aux:
  assumes "setKinetoTID cur st work = Some y"
  shows "\<forall>st'. y = Inr st' \<longrightarrow> same_but_tid st st'"
proof (rule setKinetoTID.raw_induct[where P = "\<lambda>cur st work y.
           \<forall>st'. y = Inr st' \<longrightarrow> same_but_tid st st'", OF _ assms], goal_cases)
  case (1 rec cur st work y)
  show ?case
  proof (intro allI impI)
    fix st' assume y: "y = Inr st'"
    show "same_but_tid st st'"
    proof (cases work)
      case Nil
      then show ?thesis using 1(2) y by (simp add: same_but_tid_refl)
    next
      case (Cons a rest)
      obtain r par where a: "a = (r, par)" by (cases a)
      from 1(2) y obtain st1 where
        visit: "(if is_Kineto (extra_fields (st r))
             then (if start_tid (st r) \<noteq> noTID then throw AssertionError
                   else ok (st(r := (st r)\<lparr>start_tid :=
                              (case par of Some p \<Rightarrow> start_tid (st p) | None \<Rightarrow> cur)\<rparr>)))
             else ok st) = Some (Inr st1)" and
        rest: "rec cur st1 (map (\<lambda>child. (child, Some r)) (children (st1 r)) @ rest)
               = Some (Inr st')"
        by (auto simp: Cons a bind_outcome_eq_ok)
      have "same_but_tid st st1"
        using visit by (auto simp: same_but_tid_refl same_but_tid_upd split: if_splits)
      moreover have "same_but_tid st1 st'" using 1(1)[OF rest] by simp
      ultimately show ?thesis by (rule same_but_tid_trans)
    qed
  qed
qed

lemma third_pass_frame:
  assumes "for_each (setParents_third cur) results st = Some (Inr st')"
  shows "same_but_tid st st'"
  using assms
proof (induction results arbitrary: st)
  case Nil
  then show ?case by (simp add: same_but_tid_refl)
next
  case (Cons e es)
  then obtain st1 where
    step: "setParents_third cur st e = Some (Inr st1)" and
    rest: "for_each (setParents_third cur) es st1 = Some (Inr st')"
    by (auto simp: bind_outcome_eq_ok)
  have "same_but_tid st st1"
    using step setKinetoTID_frame_aux[of cur st "[(e, None)]"]
    by (auto simp: setParents_third_def same_but_tid_refl split: if_splits)
  then show ?case using Cons.IH[OF rest] by (rule same_but_tid_trans)
qed

text \<open>The map that the first loop builds: for every flow id, the first event of the
  vector that starts the flow.\<close>

definition first_flow_start :: "store \<Rightarrow> rid list \<Rightarrow> flow_map" where
  "first_flow_start st results = (\<lambda>k. List.find (\<lambda>x. is_flow_start k (st x)) results)"

lemma setParents_effect:
  assumes "setParents use_rocm raises cur results st = Some (Inr st')"
  shows "\<forall>x. extra_fields (st' x) = extra_fields (st x)
            \<and> start_time_ns (st' x) = start_time_ns (st x)"
    and "\<forall>x\<in>set results. is_Kineto (extra_fields (st x)) \<longrightarrow>
           parent (st' x) = decided_parent (first_flow_start st results)
              ((st x)\<lparr>parent := linked_activity (extra_fields (st x))\<rparr>)"
    and "\<forall>x\<in>set results. is_Kineto (extra_fields (st x)) \<longrightarrow>
           (\<forall>p. parent (st' x) = Some p \<longrightarrow> finished (st' x) \<and> x \<in> set (children (st' p)))"
proof -
  from assms obtain st1 fm st2 where
    p1: "for_each (setParents_first use_rocm) results (st, Map.empty) = Some (Inr (st1, fm))" and
    p2: "for_each (setParents_second raises fm) results st1 = Some (Inr st2)" and
    p3: "for_each (setParents_third cur) results st2 = Some (Inr st')"
    by (auto simp: setParents_def bind_outcome_eq_ok)
  note f = first_pass_effect[OF p1]
  have fm: "fm = first_flow_start st results"
    unfolding f(2) first_flow_start_def by (simp add: fun_eq_iff)
  note s = second_pass_effect[OF p2]
  note t = same_but_tid_fields[OF third_pass_frame[OF p3]]
  have e1: "extra_fields (st1 x) = extra_fields (st x)"
    "start_time_ns (st1 x) = start_time_ns (st x)" for x
    using f(1) by simp_all
  show "\<forall>x. extra_fields (st' x) = extra_fields (st x)
            \<and> start_time_ns (st' x) = start_time_ns (st x)"
    using s by (simp add: t e1)
  show "\<forall>x\<in>set results. is_Kineto (extra_fields (st x)) \<longrightarrow>
           parent (st' x) = decided_parent (first_flow_start st results)
              ((st x)\<lparr>parent := linked_activity (extra_fields (st x))\<rparr>)"
    using s f(1) by (simp add: t fm)
  show "\<forall>x\<in>set results. is_Kineto (extra_fields (st x)) \<longrightarrow>
           (\<forall>p. parent (st' x) = Some p \<longrightarrow> finished (st' x) \<and> x \<in> set (children (st' p)))"
    using s by (simp add: t e1)
qed

section \<open>Flow linkage and correlation linkage\<close>

text \<open>
  C5. An external activity that has a linked activity and that continues a flow of type
  \<^verbatim>\<open>kLinkAsyncCpuGpu\<close>, where the event registered as the start of that flow (the first
  one in the vector; without \<^verbatim>\<open>USE_ROCM\<close> a second one fails the assertion) is a
  different event, has the flow start as its parent after \<^verbatim>\<open>setParents\<close>, not the
  linked activity.
\<close>

theorem flow_overrides_linked_activity:
  assumes "setParents use_rocm raises current_tid results st = Some (Inr st')"
    and "e \<in> set results"
    and "extra_fields (st e) = Kineto dur f_id kLinkAsyncCpuGpu False (Some linked)"
    and "List.find (\<lambda>x. is_flow_start f_id (st x)) results = Some s"
    and "s \<noteq> linked"
  shows "parent (st' e) = Some s \<and> parent (st' e) \<noteq> Some linked"
proof -
  have "parent (st' e) = decided_parent (first_flow_start st results)
              ((st e)\<lparr>parent := linked_activity (extra_fields (st e))\<rparr>)"
    using setParents_effect(2)[OF assms(1)] assms(2,3) by simp
  also have "\<dots> = Some s"
    using assms(3,4) by (simp add: decided_parent_def first_flow_start_def)
  finally show ?thesis using assms(5) by simp
qed

text \<open>An event made from an external activity; its thread id is still the placeholder.\<close>

definition kineto :: "time_t \<Rightarrow> int \<Rightarrow> nat \<Rightarrow> nat \<Rightarrow> bool \<Rightarrow> rid option \<Rightarrow> result" where
  "kineto start_ns dur_us f_id f_type f_start linked =
     \<lparr>start_time_ns = start_ns, start_tid = noTID,
      extra_fields = Kineto dur_us f_id f_type f_start linked,
      parent = None, children = [], finished = False\<rparr>"

text \<open>
  An operation [0,100], a launch at 10 that starts flow 7 and a kernel at 20 that
  continues it, both linked to the operation; and the store after the merge.
\<close>

definition flow_store :: store where
  "flow_store = (\<lambda>_. torch_op 0 100 1)
     (1 := kineto 10 1 7 kLinkAsyncCpuGpu True (Some 0),
      2 := kineto 20 5 7 kLinkAsyncCpuGpu False (Some 0))"

definition flow_merged :: store where
  "flow_merged = (\<lambda>_. torch_op 0 100 1)
     (0 := (torch_op 0 100 1)\<lparr>children := [1]\<rparr>,
      1 := (kineto 10 1 7 kLinkAsyncCpuGpu True (Some 0))
             \<lparr>start_tid := 1, parent := Some 0, children := [2], finished := True\<rparr>,
      2 := (kineto 20 5 7 kLinkAsyncCpuGpu False (Some 0))
             \<lparr>start_tid := 1, parent := Some 1, finished := True\<rparr>)"

lemmas merge_eval = collate_def setParents_def setParents_first_def setParents_second_def
  setParents_third_def setKinetoTID.simps stable_sort_by_start_def kLinkAsyncCpuGpu_def
  noTID_def

lemma setParents_flow_store:
  "setParents False False 9 [0, 1, 2] flow_store = Some (Inr flow_merged)"
  by (simp add: build_eval merge_eval flow_store_def flow_merged_def kineto_def)

theorem flow_overrides_linked_activity_witness:
  "setParents False False 9 [0, 1, 2] flow_store = Some (Inr flow_merged)
   \<and> extra_fields (flow_store 2) = Kineto 5 7 kLinkAsyncCpuGpu False (Some 0)
   \<and> List.find (\<lambda>x. is_flow_start 7 (flow_store x)) [0, 1, 2] = Some 1
   \<and> parent (flow_merged 2) = Some 1"
proof -
  have e: "extra_fields (flow_store 2) = Kineto 5 7 kLinkAsyncCpuGpu False (Some 0)"
    by (simp add: flow_store_def kineto_def)
  have f: "List.find (\<lambda>x. is_flow_start 7 (flow_store x)) [0, 1, 2] = Some 1"
    by (simp add: flow_store_def kineto_def torch_op_def is_flow_start_def)
  from flow_overrides_linked_activity[OF setParents_flow_store _ e f]
  have "parent (flow_merged 2) = Some 1" by simp
  then show ?thesis using setParents_flow_store e f by simp
qed

section \<open>Merged activities and the tree builder\<close>

text \<open>
  C6. An external activity that has a parent after \<^verbatim>\<open>setParents\<close> is finished and is
  among the children of that parent. \<^verbatim>\<open>push_event\<close> returns at once on it, with the
  store, the open frames and the pending ends unchanged, and after \<^verbatim>\<open>build_tree\<close> on
  distinct events the object is what it was: its parent in particular.
\<close>

theorem merged_activity_kept_by_build_tree:
  assumes "setParents use_rocm raises current_tid results st = Some (Inr merged)"
    and "x \<in> set results"
    and "is_Kineto (extra_fields (st x))"
    and "parent (merged x) = Some p"
  shows "finished (merged x) \<and> x \<in> set (children (merged p))
     \<and> push_event raises' (merged, stacks, heap) x = Some (Inr (merged, stacks, heap))
     \<and> (build_tree raises' tie sorted_events merged = Some (Inr built)
          \<longrightarrow> distinct sorted_events
          \<longrightarrow> built x = merged x \<and> parent (built x) = Some p)"
proof -
  have fin: "finished (merged x)" and ch: "x \<in> set (children (merged p))"
    using setParents_effect(3)[OF assms(1)] assms(2-4) by blast+
  have k: "is_Kineto (extra_fields (merged x))"
    using setParents_effect(1)[OF assms(1)] assms(3) by simp
  have sk: "skips merged x" using fin k by (simp add: skips_def)
  have push: "push_event raises' (merged, stacks, heap) x = Some (Inr (merged, stacks, heap))"
    using fin k by (simp add: push_event_def ok_def)
  have "built x = merged x \<and> parent (built x) = Some p"
    if bt: "build_tree raises' tie sorted_events merged = Some (Inr built)"
      and d: "distinct sorted_events"
  proof -
    from build_tree_inv[OF bt d] obtain stacks' heap'
      where inv: "replay_inv merged sorted_events built stacks' heap'" by blast
    have "built x = merged x" using replay_inv_same[OF inv] sk by simp
    then show ?thesis using assms(4) by simp
  qed
  then show ?thesis using fin ch push by blast
qed

text \<open>The tree built from the merged example.\<close>

definition flow_tree :: store where
  "flow_tree = flow_merged(0 := (torch_op 0 100 1)\<lparr>children := [1], finished := True\<rparr>)"

lemma build_tree_flow_merged:
  "build_tree False hd [0, 1, 2] flow_merged = Some (Inr flow_tree)"
  by (simp add: build_eval flow_merged_def flow_tree_def kineto_def)

theorem merged_activity_kept_by_build_tree_witness:
  "setParents False False 9 [0, 1, 2] flow_store = Some (Inr flow_merged)
   \<and> is_Kineto (extra_fields (flow_store 2))
   \<and> parent (flow_merged 2) = Some 1
   \<and> build_tree False hd [0, 1, 2] flow_merged = Some (Inr flow_tree)
   \<and> finished (flow_merged 2)
   \<and> 2 \<in> set (children (flow_merged 1))
   \<and> flow_tree 2 = flow_merged 2
   \<and> parent (flow_tree 2) = Some 1"
proof -
  have k: "is_Kineto (extra_fields (flow_store 2))"
    by (simp add: flow_store_def kineto_def)
  have p: "parent (flow_merged 2) = Some 1"
    by (simp add: flow_merged_def kineto_def)
  have d: "distinct [0, 1, 2 :: nat]" by simp
  have m: "(2 :: nat) \<in> set [0, 1, 2]" by simp
  from merged_activity_kept_by_build_tree[where raises' = False and tie = hd
      and sorted_events = "[0, 1, 2]" and built = flow_tree
      and stacks = Map.empty and heap = "[]", OF setParents_flow_store m k p]
    build_tree_flow_merged d
  have "finished (flow_merged 2) \<and> 2 \<in> set (children (flow_merged 1))
        \<and> flow_tree 2 = flow_merged 2 \<and> parent (flow_tree 2) = Some 1"
    by blast
  then show ?thesis using setParents_flow_store k p build_tree_flow_merged by simp
qed

section \<open>Order of siblings\<close>

text \<open>
  An operation P:[0,100], an operation T:[10,20] on the same thread, and an external
  activity K at 10 that is linked to P, in this order in the vector.
\<close>

definition tie_store :: store where
  "tie_store = (\<lambda>_. torch_op 0 100 1)
     (1 := torch_op 10 20 1, 2 := kineto 10 1 0 0 False (Some 0))"

text \<open>
  The merge attaches K to P before the sort and the tree builder attaches T after it,
  so the children of P are K, T: the two siblings start at the same time and T comes
  before K in the input.
\<close>

theorem merged_child_precedes_tied_sibling:
  "node_of (collate False False hd 9 False [0, 1, 2] tie_store) 0
     = Some (Inr (None, [2, 1], True))
   \<and> node_of (collate False False hd 9 False [0, 1, 2] tie_store) 1
     = Some (Inr (Some 0, [], True))
   \<and> node_of (collate False False hd 9 False [0, 1, 2] tie_store) 2
     = Some (Inr (Some 0, [], True))
   \<and> start_time_ns (tie_store 1) = start_time_ns (tie_store 2)"
  by (simp add: build_eval merge_eval tie_store_def kineto_def)

text \<open>
  C9 (amended). The computation is a function of its input. After the stable sort and
  \<^verbatim>\<open>build_tree\<close> on distinct events, the children of a node are the children it had
  before (those the merge of the external trace attached) followed by the events that
  the builder attached to it, in sorted order; among these, the events with one and the
  same start time are in the order in which the input has them.
\<close>

theorem tied_siblings_keep_input_order:
  assumes "build_tree raises tie (stable_sort_by_start st out) st = Some (Inr st')"
    and "distinct out"
  shows "children (st' p) = children (st p)
           @ filter (\<lambda>x. \<not> (is_Kineto (extra_fields (st x)) \<and> finished (st x))
                         \<and> parent (st' x) = Some p) (stable_sort_by_start st out)
     \<and> filter (\<lambda>x. start_time_ns (st x) = t)
          (drop (length (children (st p))) (children (st' p)))
       = filter (\<lambda>x. \<not> (is_Kineto (extra_fields (st x)) \<and> finished (st x))
                     \<and> parent (st' x) = Some p \<and> start_time_ns (st x) = t) out"
proof -
  let ?sorted = "stable_sort_by_start st out"
  let ?Q = "\<lambda>x. \<not> (is_Kineto (extra_fields (st x)) \<and> finished (st x)) \<and> parent (st' x) = Some p"
  have d: "distinct ?sorted" using assms(2) by (simp add: stable_sort_by_start_def)
  from build_tree_inv[OF assms(1) d] obtain stacks' heap'
    where inv: "replay_inv st ?sorted st' stacks' heap'" by blast
  have c: "children (st' p) = children (st p) @ filter ?Q ?sorted"
    using replay_inv_children[OF inv, of p] by (simp add: skips_def)
  have "filter (\<lambda>x. start_time_ns (st x) = t) (drop (length (children (st p))) (children (st' p)))
        = filter (\<lambda>x. start_time_ns (st x) = t) (filter ?Q ?sorted)"
    by (simp add: c)
  also have "\<dots> = filter ?Q (filter (\<lambda>x. start_time_ns (st x) = t) ?sorted)"
    by (simp add: conj_commute)
  also have "filter (\<lambda>x. start_time_ns (st x) = t) ?sorted
             = filter (\<lambda>x. start_time_ns (st x) = t) out"
    unfolding stable_sort_by_start_def by (rule sort_key_stable)
  also have "filter ?Q (filter (\<lambda>x. start_time_ns (st x) = t) out)
             = filter (\<lambda>x. \<not> (is_Kineto (extra_fields (st x)) \<and> finished (st x))
                     \<and> parent (st' x) = Some p \<and> start_time_ns (st x) = t) out"
    by (simp add: conj_commute conj_left_commute)
  finally show ?thesis using c by simp
qed

text \<open>An operation [0,100] and two allocations at 10, and their tree.\<close>

definition tied_store :: store where
  "tied_store = (\<lambda>_. torch_op 0 100 1)(1 := allocation 10 1, 2 := allocation 10 1)"

definition tied_tree :: store where
  "tied_tree = (\<lambda>_. torch_op 0 100 1)
     (0 := (torch_op 0 100 1)\<lparr>children := [1, 2], finished := True\<rparr>,
      1 := (allocation 10 1)\<lparr>parent := Some 0, finished := True\<rparr>,
      2 := (allocation 10 1)\<lparr>parent := Some 0, finished := True\<rparr>)"

lemma build_tree_tied:
  "build_tree False hd (stable_sort_by_start tied_store [0, 1, 2]) tied_store
     = Some (Inr tied_tree)"
  by (simp add: build_eval stable_sort_by_start_def tied_store_def tied_tree_def allocation_def;
      auto simp: fun_eq_iff)

theorem tied_siblings_keep_input_order_witness:
  "build_tree False hd (stable_sort_by_start tied_store [0, 1, 2]) tied_store
     = Some (Inr tied_tree)
   \<and> distinct [0, 1, 2 :: nat]
   \<and> start_time_ns (tied_store 1) = start_time_ns (tied_store 2)
   \<and> filter (\<lambda>x. start_time_ns (tied_store x) = 10)
        (drop (length (children (tied_store 0))) (children (tied_tree 0))) = [1, 2]"
proof -
  have d: "distinct [0, 1, 2 :: nat]" by simp
  have f: "filter (\<lambda>x. \<not> (is_Kineto (extra_fields (tied_store x)) \<and> finished (tied_store x))
                     \<and> parent (tied_tree x) = Some 0 \<and> start_time_ns (tied_store x) = 10)
          [0, 1, 2] = [1, 2]"
    by (simp add: tied_store_def tied_tree_def allocation_def torch_op_def)
  have "filter (\<lambda>x. start_time_ns (tied_store x) = 10)
        (drop (length (children (tied_store 0))) (children (tied_tree 0)))
      = filter (\<lambda>x. \<not> (is_Kineto (extra_fields (tied_store x)) \<and> finished (tied_store x))
                     \<and> parent (tied_tree x) = Some 0 \<and> start_time_ns (tied_store x) = 10)
          [0, 1, 2]"
    by (rule tied_siblings_keep_input_order[where p = 0 and t = 10,
          OF build_tree_tied d, THEN conjunct2])
  then have r: "filter (\<lambda>x. start_time_ns (tied_store x) = 10)
        (drop (length (children (tied_store 0))) (children (tied_tree 0))) = [1, 2]"
    by (simp only: f)
  have t: "start_time_ns (tied_store 1) = start_time_ns (tied_store 2)"
    by (simp add: tied_store_def allocation_def)
  show ?thesis using build_tree_tied d t r by (intro conjI)
qed

section \<open>What the write-back of the buffer identities changes\<close>

text \<open>The event whose \<^verbatim>\<open>id_\<close> a reference points into.\<close>

fun ref_event :: "id_ref \<Rightarrow> rid" where
  "ref_event (InputRef r j) = r"
| "ref_event (AllocRef r) = r"

lemma set_id_other: "ref_event ref \<noteq> x \<Longrightarrow> set_id ref v st x = st x"
  by (cases ref) (simp_all add: set_id_def)

lemma set_id_input_on_alloc:
  "extra_fields (st r) = Allocation a_ptr a_size a_id \<Longrightarrow> set_id (InputRef r j) v st r = st r"
  by (simp add: set_id_def)

lemma set_id_keeps_alloc:
  assumes "extra_fields (st r) = Allocation a_ptr a_size a_id" "ref \<noteq> AllocRef r"
  shows "set_id ref v st r = st r"
proof (cases ref)
  case (InputRef r' j)
  show ?thesis
  proof (cases "r' = r")
    case True
    then show ?thesis using assms(1) InputRef by (simp add: set_id_input_on_alloc)
  next
    case False
    then show ?thesis using InputRef by (simp add: set_id_other)
  qed
next
  case (AllocRef r')
  then have "r' \<noteq> r" using assms(2) by simp
  then show ?thesis using AllocRef by (simp add: set_id_other)
qed

lemma write_back_keeps_alloc:
  assumes "for_each (write_back id_map) tensors st = Some (Inr st')"
    and "extra_fields (st r) = Allocation a_ptr a_size a_id"
    and "\<forall>t\<in>set tensors. pair_id_ref t \<noteq> AllocRef r"
  shows "st' r = st r"
  using assms
proof (induction tensors arbitrary: st)
  case Nil
  then show ?case by simp
next
  case (Cons t ts)
  from Cons.prems(1) obtain st1 where
    step: "write_back id_map st t = Some (Inr st1)" and
    rest: "for_each (write_back id_map) ts st1 = Some (Inr st')"
    by (auto simp: bind_outcome_eq_ok)
  from step obtain v where st1: "st1 = set_id (pair_id_ref t) v st"
    by (auto simp: write_back_def split: option.splits)
  have same: "st1 r = st r"
    unfolding st1 using Cons.prems(2,3) by (intro set_id_keeps_alloc) simp_all
  then have "extra_fields (st1 r) = Allocation a_ptr a_size a_id" using Cons.prems(2) by simp
  from Cons.IH[OF rest this] Cons.prems(3) have "st' r = st1 r" by simp
  then show ?case using same by simp
qed


lemma for_each_append:
  "for_each body (xs @ ys) s = bind_outcome (for_each body xs s) (for_each body ys)"
proof (induction xs arbitrary: s)
  case Nil
  show ?case by simp
next
  case (Cons x xs)
  show ?case
    by (cases "body s x" rule: option.exhaust[case_names None Some])
       (auto simp: Cons bind_outcome_def split: sum.splits)
qed

lemma set_id_alloc:
  "extra_fields (st r) = Allocation a_ptr a_size a_id
   \<Longrightarrow> extra_fields (set_id (AllocRef r) v st r) = Allocation a_ptr a_size (Some v)"
  by (simp add: set_id_def)

lemma write_back_alloc:
  assumes wb: "for_each (write_back id_map) (Pa @ t # Pb) st = Some (Inr st')"
    and al: "extra_fields (st r) = Allocation a_ptr a_size a_id"
    and t: "pair_id_ref t = AllocRef r"
    and others: "\<forall>u\<in>set Pa \<union> set Pb. pair_id_ref u \<noteq> AllocRef r"
  shows "\<exists>v. id_map (pair_storage_id t) = Some v
             \<and> extra_fields (st' r) = Allocation a_ptr a_size (Some v)"
proof -
  from wb obtain st1 st2 where
    a: "for_each (write_back id_map) Pa st = Some (Inr st1)" and
    b: "write_back id_map st1 t = Some (Inr st2)" and
    c: "for_each (write_back id_map) Pb st2 = Some (Inr st')"
    by (auto simp: for_each_append bind_outcome_eq_ok)
  have s1: "st1 r = st r" using others by (intro write_back_keeps_alloc[OF a al]) simp
  from b obtain v where v: "id_map (pair_storage_id t) = Some v"
    "st2 = set_id (AllocRef r) v st1"
    by (auto simp: write_back_def t split: option.splits)
  have e2: "extra_fields (st2 r) = Allocation a_ptr a_size (Some v)"
    unfolding v(2) using al s1 by (intro set_id_alloc) simp
  have "st' r = st2 r" using others by (intro write_back_keeps_alloc[OF c e2]) simp
  then show ?thesis using v(1) e2 by simp
qed

section \<open>The provisional storage ids of step 1\<close>

text \<open>
  \<open>flat_ext E s s'\<close>: the state \<open>s'\<close> of step 1 is reached from \<open>s\<close> by visiting events of
  \<open>E\<close> only. The counter does not decrease, entries are appended and they belong to events
  of \<open>E\<close> with ids below the new counter, a live address has its old id or one issued in
  between, and an id enters \<^verbatim>\<open>tensor_set\<close> only with an entry that has a tensor handle.
\<close>

definition flat_ext :: "rid set \<Rightarrow> flatten_state \<Rightarrow> flatten_state \<Rightarrow> bool" where
  "flat_ext E s s' \<longleftrightarrow>
     (case s of (c, l, ts, T) \<Rightarrow> case s' of (c', l', ts', T') \<Rightarrow>
        c \<le> c'
      \<and> (\<exists>new. T' = T @ new
             \<and> (\<forall>t\<in>set new. ref_event (pair_id_ref t) \<in> E \<and> pair_storage_id t < c'))
      \<and> (\<forall>d v. l' d = Some v \<longrightarrow> l d = Some v \<or> c \<le> v \<and> v < c')
      \<and> (\<forall>x\<in>ts'. x \<in> ts \<or> (\<exists>t\<in>set T'. pair_storage_id t = x \<and> pair_impl t \<noteq> 0)))"

lemma flat_ext_refl: "flat_ext E s s"
  by (cases s) (auto simp: flat_ext_def)

lemma flat_ext_trans:
  assumes "flat_ext E s s'" "flat_ext E' s' s''"
  shows "flat_ext (E \<union> E') s s''"
proof -
  obtain c l ts T where s: "s = (c, l, ts, T)" by (cases s)
  obtain c' l' ts' T' where s': "s' = (c', l', ts', T')" by (cases s')
  obtain c'' l'' ts'' T'' where s'': "s'' = (c'', l'', ts'', T'')" by (cases s'')
  from assms(1) obtain n1 where a:
    "c \<le> c'" "T' = T @ n1"
    "\<forall>t\<in>set n1. ref_event (pair_id_ref t) \<in> E \<and> pair_storage_id t < c'"
    "\<forall>d v. l' d = Some v \<longrightarrow> l d = Some v \<or> c \<le> v \<and> v < c'"
    "\<forall>x\<in>ts'. x \<in> ts \<or> (\<exists>t\<in>set T'. pair_storage_id t = x \<and> pair_impl t \<noteq> 0)"
    unfolding flat_ext_def s s' by auto
  from assms(2) obtain n2 where b:
    "c' \<le> c''" "T'' = T' @ n2"
    "\<forall>t\<in>set n2. ref_event (pair_id_ref t) \<in> E' \<and> pair_storage_id t < c''"
    "\<forall>d v. l'' d = Some v \<longrightarrow> l' d = Some v \<or> c' \<le> v \<and> v < c''"
    "\<forall>x\<in>ts''. x \<in> ts' \<or> (\<exists>t\<in>set T''. pair_storage_id t = x \<and> pair_impl t \<noteq> 0)"
    unfolding flat_ext_def s' s'' by auto
  have 1: "c \<le> c''" using a(1) b(1) by simp
  have 2: "T'' = T @ (n1 @ n2)" using a(2) b(2) by simp
  have 3: "\<forall>t\<in>set (n1 @ n2). ref_event (pair_id_ref t) \<in> E \<union> E' \<and> pair_storage_id t < c''"
    using a(3) b(3) b(1) by fastforce
  have 4: "\<forall>d v. l'' d = Some v \<longrightarrow> l d = Some v \<or> c \<le> v \<and> v < c''"
  proof (intro allI impI)
    fix d v assume "l'' d = Some v"
    then consider "l' d = Some v" | "c' \<le> v \<and> v < c''" using b(4) by blast
    then show "l d = Some v \<or> c \<le> v \<and> v < c''"
    proof cases
      case 1
      then show ?thesis using a(4) b(1) by fastforce
    next
      case 2
      then show ?thesis using a(1) by simp
    qed
  qed
  have 5: "\<forall>x\<in>ts''. x \<in> ts \<or> (\<exists>t\<in>set T''. pair_storage_id t = x \<and> pair_impl t \<noteq> 0)"
  proof
    fix x assume "x \<in> ts''"
    then consider "x \<in> ts'" | "\<exists>t\<in>set T''. pair_storage_id t = x \<and> pair_impl t \<noteq> 0"
      using b(5) by blast
    then show "x \<in> ts \<or> (\<exists>t\<in>set T''. pair_storage_id t = x \<and> pair_impl t \<noteq> 0)"
    proof cases
      case 1
      then show ?thesis using a(5) b(2) by fastforce
    next
      case 2
      then show ?thesis by simp
    qed
  qed
  show ?thesis unfolding flat_ext_def s s'' using 1 2 3 4 5 by auto
qed

lemma flat_ext_mono: "flat_ext E s s' \<Longrightarrow> E \<subseteq> E' \<Longrightarrow> flat_ext E' s s'"
  unfolding flat_ext_def by (cases s; cases s') fastforce

lemma lookup_cases:
  assumes "lookup d (c, l) = (sid, c', l')"
  shows "sid = (case l d of Some v \<Rightarrow> v | None \<Rightarrow> c)"
    and "c' = (case l d of Some v \<Rightarrow> c | None \<Rightarrow> c + 1)"
    and "l' = l(d \<mapsto> sid)"
  using assms by (auto simp: lookup_def split: option.splits)

text \<open>Every id of a live address has been issued: it is below the counter.\<close>

definition live_ok :: "flatten_state \<Rightarrow> bool" where
  "live_ok s \<longleftrightarrow> (case s of (c, l, ts, T) \<Rightarrow> \<forall>d v. l d = Some v \<longrightarrow> v < c)"

lemma live_ok_ext: "flat_ext E s s' \<Longrightarrow> live_ok s \<Longrightarrow> live_ok s'"
  unfolding flat_ext_def live_ok_def
  by (cases s; cases s') (fastforce simp: less_le_trans)

lemma lookup_bounds:
  assumes "lookup d (c, l) = (sid, c', l')" "live_ok (c, l, ts, T)"
  shows "c \<le> c'" "sid < c'" "\<forall>e v. l' e = Some v \<longrightarrow> l e = Some v \<or> c \<le> v \<and> v < c'"
proof -
  note lc = lookup_cases[OF assms(1)]
  show "c \<le> c'" using lc(2) by (auto split: option.splits)
  show sid: "sid < c'" using lc(1,2) assms(2) by (auto simp: live_ok_def split: option.splits)
  show "\<forall>e v. l' e = Some v \<longrightarrow> l e = Some v \<or> c \<le> v \<and> v < c'"
    using lc assms(2) by (auto simp: live_ok_def split: option.splits if_splits)
qed

lemma flat_ext_input:
  assumes "lookup d (c, l) = (sid, c', l')" "live_ok (c, l, ts, T)" "i \<noteq> 0"
  shows "flat_ext {r} (c, l, ts, T)
           (c', l', insert sid ts, T @ [\<lparr>pair_impl = i, pair_storage_id = sid,
                                         pair_id_ref = InputRef r j\<rparr>])"
  using lookup_bounds[OF assms(1,2)] assms(3)
  unfolding flat_ext_def by auto

lemma flat_ext_alloc:
  assumes "lookup d (c, l) = (sid, c', l')" "live_ok (c, l, ts, T)"
    and "l'' = l' \<or> l'' = l'(d := None)"
  shows "flat_ext {r} (c, l, ts, T)
           (c', l'', ts, T @ [\<lparr>pair_impl = 0, pair_storage_id = sid,
                                pair_id_ref = AllocRef r\<rparr>])"
proof -
  note b = lookup_bounds[OF assms(1,2)]
  have "\<forall>e v. l'' e = Some v \<longrightarrow> l e = Some v \<or> c \<le> v \<and> v < c'"
    using b(3) assms(3) by (fastforce split: if_splits)
  then show ?thesis using b(1,2) unfolding flat_ext_def by auto
qed

lemma flatten_inputs_ext:
  "live_ok (c, l, ts, T) \<Longrightarrow> flat_ext {r} (c, l, ts, T) (flatten_inputs r j ms (c, l, ts, T))"
proof (induction ms arbitrary: j c l ts T)
  case Nil
  show ?case by (simp add: flat_ext_refl)
next
  case (Cons m ms)
  show ?case
  proof (cases "\<exists>md. m = Some md \<and> impl md \<noteq> 0 \<and> data md \<noteq> 0")
    case False
    then have "flatten_inputs r j (m # ms) (c, l, ts, T) = flatten_inputs r (Suc j) ms (c, l, ts, T)"
      by (auto split: option.splits)
    then show ?thesis using Cons.IH[OF Cons.prems] by simp
  next
    case True
    then obtain md where md: "m = Some md" "impl md \<noteq> 0" "data md \<noteq> 0" by blast
    obtain sid c' l' where lk: "lookup (data md) (c, l) = (sid, c', l')"
      by (cases "lookup (data md) (c, l)")
    let ?s1 = "(c', l', insert sid ts, T @ [\<lparr>pair_impl = impl md, pair_storage_id = sid,
                                         pair_id_ref = InputRef r j\<rparr>])"
    have e1: "flat_ext {r} (c, l, ts, T) ?s1"
      by (rule flat_ext_input[OF lk Cons.prems md(2)])
    have "live_ok ?s1" by (rule live_ok_ext[OF e1 Cons.prems])
    then have e2: "flat_ext {r} ?s1 (flatten_inputs r (Suc j) ms ?s1)" by (rule Cons.IH)
    have "flatten_inputs r j (m # ms) (c, l, ts, T) = flatten_inputs r (Suc j) ms ?s1"
      using md lk by simp
    then show ?thesis using flat_ext_trans[OF e1 e2] by simp
  qed
qed

lemma flatten_result_ext:
  assumes "live_ok s"
  shows "flat_ext {r} s (flatten_result st s r)"
proof -
  obtain c l ts T where s: "s = (c, l, ts, T)" by (cases s)
  show ?thesis
  proof (cases "extra_fields (st r)")
    case (TorchOp e_end fwd ins)
    then show ?thesis using flatten_inputs_ext[of c l ts T r 0 ins] assms
      by (simp add: flatten_result_def s)
  next
    case (Allocation a_ptr a_size a_id)
    obtain sid c' l' where lk: "lookup a_ptr (c, l) = (sid, c', l')"
      by (cases "lookup a_ptr (c, l)")
    have "flat_ext {r} (c, l, ts, T)
           (c', if a_size < 0 then l'(a_ptr := None) else l', ts,
            T @ [\<lparr>pair_impl = 0, pair_storage_id = sid, pair_id_ref = AllocRef r\<rparr>])"
      using assms by (intro flat_ext_alloc[OF lk]) (simp_all add: s)
    then show ?thesis by (simp add: flatten_result_def s Allocation lk)
  qed (simp_all add: flatten_result_def flat_ext_refl)
qed

lemma flatten_foldl_ext:
  "live_ok s \<Longrightarrow> flat_ext (set evs) s (foldl (flatten_result st) s evs)"
proof (induction evs arbitrary: s)
  case Nil
  show ?case by (simp add: flat_ext_refl)
next
  case (Cons r evs)
  have e1: "flat_ext {r} s (flatten_result st s r)" by (rule flatten_result_ext[OF Cons.prems])
  have "live_ok (flatten_result st s r)" by (rule live_ok_ext[OF e1 Cons.prems])
  then have e2: "flat_ext (set evs) (flatten_result st s r)
                   (foldl (flatten_result st) (flatten_result st s r) evs)"
    by (rule Cons.IH)
  show ?case using flat_ext_trans[OF e1 e2] by simp
qed

lemma live_ok_init: "live_ok (0, Map.empty, {}, [])"
  by (simp add: live_ok_def)

lemma flatten_alloc_step:
  assumes "extra_fields (st r) = Allocation x a_size a_id"
    and "flatten_result st (c, l, ts, T) r = (c', l', ts', T')"
  shows "T' = T @ [\<lparr>pair_impl = 0,
                    pair_storage_id = (case l x of Some v \<Rightarrow> v | None \<Rightarrow> c),
                    pair_id_ref = AllocRef r\<rparr>]"
    and "a_size < 0 \<Longrightarrow> l' x = None"
    and "ts' = ts"
proof -
  obtain sid c1 l1 where lk: "lookup x (c, l) = (sid, c1, l1)" by (cases "lookup x (c, l)")
  note lc = lookup_cases[OF lk]
  from assms show "T' = T @ [\<lparr>pair_impl = 0,
                    pair_storage_id = (case l x of Some v \<Rightarrow> v | None \<Rightarrow> c),
                    pair_id_ref = AllocRef r\<rparr>]"
    by (simp add: flatten_result_def lk lc(1))
  from assms show "a_size < 0 \<Longrightarrow> l' x = None"
    by (auto simp: flatten_result_def lk)
  from assms show "ts' = ts" by (simp add: flatten_result_def lk)
qed

lemma flat_extD:
  assumes "flat_ext E (c, l, ts, T) (c', l', ts', T')"
  obtains new where "c \<le> c'" "T' = T @ new"
    "\<forall>t\<in>set new. ref_event (pair_id_ref t) \<in> E \<and> pair_storage_id t < c'"
    "\<forall>d v. l' d = Some v \<longrightarrow> l d = Some v \<or> c \<le> v \<and> v < c'"
    "\<forall>x\<in>ts'. x \<in> ts \<or> (\<exists>t\<in>set T'. pair_storage_id t = x \<and> pair_impl t \<noteq> 0)"
  using assms unfolding flat_ext_def by auto

lemma flatten_reuse:
  assumes fl: "flatten st (before @ a1 # m1 @ f # m2 @ a2 # after) = (c, l, ts, T)"
    and d: "distinct (before @ a1 # m1 @ f # m2 @ a2 # after)"
    and a1: "extra_fields (st a1) = Allocation x size1 id1"
    and f: "extra_fields (st f) = Allocation x sizef idf" "sizef < 0"
    and a2: "extra_fields (st a2) = Allocation x size2 id2"
  shows "\<exists>Ta sid1 Tb sid2 Tc.
           T = Ta @ \<lparr>pair_impl = 0, pair_storage_id = sid1, pair_id_ref = AllocRef a1\<rparr>
                  # Tb @ \<lparr>pair_impl = 0, pair_storage_id = sid2, pair_id_ref = AllocRef a2\<rparr>
                  # Tc
         \<and> sid1 < sid2
         \<and> (\<forall>t\<in>set Ta \<union> set Tb \<union> set Tc.
               pair_id_ref t \<noteq> AllocRef a1 \<and> pair_id_ref t \<noteq> AllocRef a2)"
proof -
  let ?F = "foldl (flatten_result st)"
  define s0 :: flatten_state where "s0 = (0, Map.empty, {}, [])"
  define s1 where "s1 = ?F s0 before"
  define s2 where "s2 = flatten_result st s1 a1"
  define s3 where "s3 = ?F s2 m1"
  define s4 where "s4 = flatten_result st s3 f"
  define s5 where "s5 = ?F s4 m2"
  define s6 where "s6 = flatten_result st s5 a2"
  define s7 where "s7 = ?F s6 after"
  have s7: "s7 = (c, l, ts, T)"
    using fl by (simp add: flatten_def s7_def s6_def s5_def s4_def s3_def s2_def s1_def s0_def)
  obtain c1 l1 ts1 T1 where p1: "s1 = (c1, l1, ts1, T1)" by (cases s1)
  obtain c2 l2 ts2 T2 where p2: "s2 = (c2, l2, ts2, T2)" by (cases s2)
  obtain c3 l3 ts3 T3 where p3: "s3 = (c3, l3, ts3, T3)" by (cases s3)
  obtain c4 l4 ts4 T4 where p4: "s4 = (c4, l4, ts4, T4)" by (cases s4)
  obtain c5 l5 ts5 T5 where p5: "s5 = (c5, l5, ts5, T5)" by (cases s5)
  obtain c6 l6 ts6 T6 where p6: "s6 = (c6, l6, ts6, T6)" by (cases s6)
  have ok0: "live_ok s0" by (simp add: s0_def live_ok_init)
  have e1: "flat_ext (set before) s0 s1" unfolding s1_def by (rule flatten_foldl_ext[OF ok0])
  have ok1: "live_ok s1" by (rule live_ok_ext[OF e1 ok0])
  have e2: "flat_ext {a1} s1 s2" unfolding s2_def by (rule flatten_result_ext[OF ok1])
  have ok2: "live_ok s2" by (rule live_ok_ext[OF e2 ok1])
  have e3: "flat_ext (set m1) s2 s3" unfolding s3_def by (rule flatten_foldl_ext[OF ok2])
  have ok3: "live_ok s3" by (rule live_ok_ext[OF e3 ok2])
  have e4: "flat_ext {f} s3 s4" unfolding s4_def by (rule flatten_result_ext[OF ok3])
  have ok4: "live_ok s4" by (rule live_ok_ext[OF e4 ok3])
  have e5: "flat_ext (set m2) s4 s5" unfolding s5_def by (rule flatten_foldl_ext[OF ok4])
  have ok5: "live_ok s5" by (rule live_ok_ext[OF e5 ok4])
  have e6: "flat_ext {a2} s5 s6" unfolding s6_def by (rule flatten_result_ext[OF ok5])
  have ok6: "live_ok s6" by (rule live_ok_ext[OF e6 ok5])
  have e7: "flat_ext (set after) s6 s7" unfolding s7_def by (rule flatten_foldl_ext[OF ok6])
  from e1 obtain n1 where n1: "T1 = [] @ n1" "\<forall>t\<in>set n1. ref_event (pair_id_ref t) \<in> set before"
    unfolding s0_def p1 by (elim flat_extD) blast
  define sid1 where "sid1 = (case l1 x of Some v \<Rightarrow> v | None \<Rightarrow> c1)"
  define t1 where "t1 = \<lparr>pair_impl = 0, pair_storage_id = sid1, pair_id_ref = AllocRef a1\<rparr>"
  have T2: "T2 = T1 @ [t1]"
    using flatten_alloc_step(1)[where st = st and r = a1 and c = c1 and l = l1 and ts = ts1
        and T = T1 and c' = c2 and l' = l2 and ts' = ts2 and T' = T2, OF a1] p1 p2
    by (simp add: s2_def t1_def sid1_def)
  from e2 have b1: "sid1 < c2"
    unfolding p1 p2 by (elim flat_extD) (auto simp: T2 t1_def)
  from e3 obtain n3 where n3: "c2 \<le> c3" "T3 = T2 @ n3"
    "\<forall>t\<in>set n3. ref_event (pair_id_ref t) \<in> set m1"
    unfolding p2 p3 by (elim flat_extD) blast
  define tf where "tf = \<lparr>pair_impl = 0,
      pair_storage_id = (case l3 x of Some v \<Rightarrow> v | None \<Rightarrow> c3), pair_id_ref = AllocRef f\<rparr>"
  have T4: "T4 = T3 @ [tf]" and l4: "l4 x = None"
    using flatten_alloc_step(1,2)[where st = st and r = f and c = c3 and l = l3 and ts = ts3
        and T = T3 and c' = c4 and l' = l4 and ts' = ts4 and T' = T4, OF f(1)] p3 p4 f(2)
    by (simp_all add: s4_def tf_def)
  from e4 have c34: "c3 \<le> c4" unfolding p3 p4 by (elim flat_extD)
  from e5 obtain n5 where n5: "c4 \<le> c5" "T5 = T4 @ n5"
    "\<forall>t\<in>set n5. ref_event (pair_id_ref t) \<in> set m2"
    "\<forall>d v. l5 d = Some v \<longrightarrow> l4 d = Some v \<or> c4 \<le> v \<and> v < c5"
    unfolding p4 p5 by (elim flat_extD) blast
  define sid2 where "sid2 = (case l5 x of Some v \<Rightarrow> v | None \<Rightarrow> c5)"
  define t2 where "t2 = \<lparr>pair_impl = 0, pair_storage_id = sid2, pair_id_ref = AllocRef a2\<rparr>"
  have T6: "T6 = T5 @ [t2]"
    using flatten_alloc_step(1)[where st = st and r = a2 and c = c5 and l = l5 and ts = ts5
        and T = T5 and c' = c6 and l' = l6 and ts' = ts6 and T' = T6, OF a2] p5 p6
    by (simp add: s6_def t2_def sid2_def)
  have "c4 \<le> sid2"
    using n5(1,4) l4 by (fastforce simp: sid2_def split: option.splits)
  then have lt: "sid1 < sid2" using b1 n3(1) c34 by linarith
  from e7 obtain n7 where n7: "T = T6 @ n7"
    "\<forall>t\<in>set n7. ref_event (pair_id_ref t) \<in> set after"
    unfolding p6 s7 by (elim flat_extD) blast
  have T: "T = n1 @ t1 # (n3 @ tf # n5) @ t2 # n7"
    using n1(1) T2 n3(2) T4 n5(2) T6 n7(1) by simp
  have refs: "pair_id_ref t \<noteq> AllocRef a1 \<and> pair_id_ref t \<noteq> AllocRef a2"
    if "t \<in> set n1 \<union> set (n3 @ tf # n5) \<union> set n7" for t
  proof -
    from that have "ref_event (pair_id_ref t)
        \<in> set before \<union> set m1 \<union> {f} \<union> set m2 \<union> set after"
      using n1(2) n3(3) n5(3) n7(2) by (auto simp: tf_def)
    moreover have "a1 \<notin> set before \<union> set m1 \<union> {f} \<union> set m2 \<union> set after"
      "a2 \<notin> set before \<union> set m1 \<union> {f} \<union> set m2 \<union> set after"
      using d by auto
    ultimately show ?thesis by (metis ref_event.simps(2))
  qed
  show ?thesis
    using T lt refs unfolding t1_def t2_def by blast
qed

text \<open>
  A provisional id is referenced by an operation input when an entry with a tensor handle
  carries it: allocation entries have the null handle, and the entries of operation inputs
  are exactly those with a handle. \<^verbatim>\<open>tensor_set\<close> is the set of referenced ids.
\<close>

definition referenced :: "tensor_storage_pair list \<Rightarrow> nat \<Rightarrow> bool" where
  "referenced T sid \<longleftrightarrow> (\<exists>u\<in>set T. pair_impl u \<noteq> 0 \<and> pair_storage_id u = sid)"

definition seen_ok :: "flatten_state \<Rightarrow> bool" where
  "seen_ok s \<longleftrightarrow> (case s of (c, l, ts, T) \<Rightarrow> \<forall>x. x \<in> ts \<longleftrightarrow> referenced T x)"

lemma flatten_inputs_seen:
  "seen_ok (c, l, ts, T) \<Longrightarrow> seen_ok (flatten_inputs r j ms (c, l, ts, T))"
proof (induction ms arbitrary: j c l ts T)
  case Nil
  then show ?case by simp
next
  case (Cons m ms)
  show ?case
  proof (cases "\<exists>md. m = Some md \<and> impl md \<noteq> 0 \<and> data md \<noteq> 0")
    case False
    then have "flatten_inputs r j (m # ms) (c, l, ts, T) = flatten_inputs r (Suc j) ms (c, l, ts, T)"
      by (auto split: option.splits)
    then show ?thesis using Cons.IH[OF Cons.prems] by simp
  next
    case True
    then obtain md where md: "m = Some md" "impl md \<noteq> 0" "data md \<noteq> 0" by blast
    obtain sid c' l' where lk: "lookup (data md) (c, l) = (sid, c', l')"
      by (cases "lookup (data md) (c, l)")
    let ?s1 = "(c', l', insert sid ts, T @ [\<lparr>pair_impl = impl md, pair_storage_id = sid,
                                         pair_id_ref = InputRef r j\<rparr>])"
    have "seen_ok ?s1"
      using Cons.prems md(2) by (auto simp: seen_ok_def referenced_def)
    then have "seen_ok (flatten_inputs r (Suc j) ms ?s1)" by (rule Cons.IH)
    moreover have "flatten_inputs r j (m # ms) (c, l, ts, T) = flatten_inputs r (Suc j) ms ?s1"
      using md lk by simp
    ultimately show ?thesis by simp
  qed
qed

lemma flatten_result_seen:
  assumes "seen_ok s"
  shows "seen_ok (flatten_result st s r)"
proof -
  obtain c l ts T where s: "s = (c, l, ts, T)" by (cases s)
  show ?thesis
  proof (cases "extra_fields (st r)")
    case (TorchOp e_end fwd ins)
    then show ?thesis using flatten_inputs_seen[of c l ts T r 0 ins] assms
      by (simp add: flatten_result_def s)
  next
    case (Allocation a_ptr a_size a_id)
    obtain sid c' l' where lk: "lookup a_ptr (c, l) = (sid, c', l')"
      by (cases "lookup a_ptr (c, l)")
    show ?thesis using assms
      by (simp add: flatten_result_def s Allocation lk seen_ok_def referenced_def)
  qed (simp_all add: flatten_result_def assms)
qed

lemma flatten_foldl_seen:
  "seen_ok s \<Longrightarrow> seen_ok (foldl (flatten_result st) s evs)"
  by (induction evs arbitrary: s) (simp_all add: flatten_result_seen)

lemma tensor_set_referenced:
  assumes "flatten st sorted_results = (current_id, live_storage, tensor_set, all_tensors)"
  shows "x \<in> tensor_set \<longleftrightarrow> referenced all_tensors x"
proof -
  have "seen_ok (0, Map.empty, {}, [])" by (simp add: seen_ok_def referenced_def)
  then have "seen_ok (flatten st sorted_results)"
    unfolding flatten_def by (rule flatten_foldl_seen)
  then show ?thesis by (simp add: assms seen_ok_def)
qed


section \<open>The final ids of steps 2 and 3\<close>

text \<open>
  Step 3 is one pass over the sorted pairs: an id gets the final id of the first component
  of the first pair in which it appears. So an id has the final id of the least id recorded
  with it as a first component, if that one is smaller, and otherwise a new one. Following
  these least partners leads to the representative of an id.
\<close>

definition least_partner :: "(nat \<times> nat) list \<Rightarrow> nat \<Rightarrow> nat" where
  "least_partner ps s = min_list (s # map fst (filter (\<lambda>p. snd p = s) ps))"

lemma least_partner_Min:
  "least_partner ps s = Min (insert s {a. (a, s) \<in> set ps})"
proof -
  have "set (s # map fst (filter (\<lambda>p. snd p = s) ps)) = insert s {a. (a, s) \<in> set ps}"
    by force
  then show ?thesis
    unfolding least_partner_def by (subst min_list_Min) simp_all
qed

lemma finite_partners: "finite (insert s {a. (a, s) \<in> set ps})"
proof -
  have "{a. (a, s) \<in> set ps} \<subseteq> fst ` set ps" by force
  then show ?thesis by (simp add: finite_subset)
qed

lemma least_partner_le: "least_partner ps s \<le> s"
  unfolding least_partner_Min by (rule Min_le[OF finite_partners]) simp

lemma least_partner_le_partner: "(a, s) \<in> set ps \<Longrightarrow> least_partner ps s \<le> a"
proof -
  assume a: "(a, s) \<in> set ps"
  show ?thesis unfolding least_partner_Min using a by (intro Min_le[OF finite_partners]) simp
qed

lemma least_partner_mem:
  "least_partner ps s = s \<or> (least_partner ps s, s) \<in> set ps"
proof -
  have "Min (insert s {a. (a, s) \<in> set ps}) \<in> insert s {a. (a, s) \<in> set ps}"
    by (rule Min_in[OF finite_partners]) simp
  then show ?thesis unfolding least_partner_Min by auto
qed

function cluster_root :: "(nat \<times> nat) list \<Rightarrow> nat \<Rightarrow> nat" where
  "cluster_root ps s =
     (if least_partner ps s < s then cluster_root ps (least_partner ps s) else s)"
  by pat_completeness auto
termination
  by (relation "measure snd") auto

declare cluster_root.simps [simp del]

lemma cluster_root_self: "least_partner ps s = s \<Longrightarrow> cluster_root ps s = s"
  by (subst cluster_root.simps) simp

lemma cluster_root_step:
  "least_partner ps s = a \<Longrightarrow> a < s \<Longrightarrow> cluster_root ps s = cluster_root ps a"
  by (subst cluster_root.simps) simp

lemma cluster_root_fix: "least_partner ps (cluster_root ps s) = cluster_root ps s"
proof (induction ps s rule: cluster_root.induct)
  case (1 ps s)
  show ?case
  proof (cases "least_partner ps s < s")
    case True
    then show ?thesis using 1 by (subst (1 2) cluster_root.simps) simp
  next
    case False
    then have "least_partner ps s = s" using least_partner_le[of ps s] by simp
    then show ?thesis by (simp add: cluster_root_self)
  qed
qed

lemma cluster_root_idem: "cluster_root ps (cluster_root ps s) = cluster_root ps s"
  by (rule cluster_root_self) (rule cluster_root_fix)

lemma cluster_root_other:
  "cluster_root ps s \<noteq> s
   \<Longrightarrow> \<exists>k. (cluster_root ps s, k) \<in> set ps \<and> cluster_root ps s < k"
proof (induction ps s rule: cluster_root.induct)
  case (1 ps s)
  let ?a = "least_partner ps s"
  have lt: "?a < s"
  proof (rule ccontr)
    assume "\<not> ?a < s"
    then have "?a = s" using least_partner_le[of ps s] by simp
    then show False using "1.prems" by (simp add: cluster_root_self)
  qed
  have r: "cluster_root ps s = cluster_root ps ?a" by (rule cluster_root_step[OF refl lt])
  have mem: "(?a, s) \<in> set ps" using least_partner_mem[of ps s] lt by auto
  show ?case
  proof (cases "cluster_root ps ?a = ?a")
    case True
    then show ?thesis using mem lt r by auto
  next
    case False
    from "1.IH"[OF lt False] show ?thesis unfolding r .
  qed
qed

text \<open>
  The state of step 3 after a prefix of the sorted pairs: every key has the final id of its
  representative, and two representatives have different final ids.
\<close>

definition rooted :: "(nat \<times> nat) list \<Rightarrow> (nat \<rightharpoonup> nat) \<times> nat \<Rightarrow> bool" where
  "rooted us s \<longleftrightarrow>
     (case s of (m, c) \<Rightarrow>
        (\<forall>k v. m k = Some v \<longrightarrow> v < c)
      \<and> (\<forall>k\<in>dom m. m k = m (cluster_root us k))
      \<and> (\<forall>k1\<in>dom m. \<forall>k2\<in>dom m. cluster_root us k1 = k1 \<longrightarrow> cluster_root us k2 = k2
            \<longrightarrow> m k1 = m k2 \<longrightarrow> k1 = k2))"

lemma rootedD:
  assumes "rooted us (m, c)"
  shows "\<And>k v. m k = Some v \<Longrightarrow> v < c"
    and "\<And>k. k \<in> dom m \<Longrightarrow> m k = m (cluster_root us k)"
    and "\<And>k1 k2. k1 \<in> dom m \<Longrightarrow> k2 \<in> dom m \<Longrightarrow> cluster_root us k1 = k1
           \<Longrightarrow> cluster_root us k2 = k2 \<Longrightarrow> m k1 = m k2 \<Longrightarrow> k1 = k2"
proof -
  from assms have a: "\<forall>k v. m k = Some v \<longrightarrow> v < c"
    and b: "\<forall>k\<in>dom m. m k = m (cluster_root us k)"
    and c: "\<forall>k1\<in>dom m. \<forall>k2\<in>dom m. cluster_root us k1 = k1 \<longrightarrow> cluster_root us k2 = k2
            \<longrightarrow> m k1 = m k2 \<longrightarrow> k1 = k2"
    unfolding rooted_def prod.case by blast+
  show "\<And>k v. m k = Some v \<Longrightarrow> v < c" using a by blast
  show "\<And>k. k \<in> dom m \<Longrightarrow> m k = m (cluster_root us k)" using b by blast
  show "\<And>k1 k2. k1 \<in> dom m \<Longrightarrow> k2 \<in> dom m \<Longrightarrow> cluster_root us k1 = k1
           \<Longrightarrow> cluster_root us k2 = k2 \<Longrightarrow> m k1 = m k2 \<Longrightarrow> k1 = k2"
    using c by blast
qed

lemma rooted_root_dom:
  assumes "rooted us (m, c)" "k \<in> dom m"
  shows "cluster_root us k \<in> dom m"
  using rootedD(2)[OF assms] assms(2) by (auto simp: dom_def)

lemma rooted_fresh:
  assumes r: "rooted us (m, c)" and a: "m a = None" and root: "cluster_root us a = a"
  shows "rooted us (m(a \<mapsto> c), Suc c)"
  unfolding rooted_def prod.case
proof (intro conjI allI ballI impI)
  fix k v assume "(m(a \<mapsto> c)) k = Some v"
  then show "v < Suc c" using rootedD(1)[OF r, of k v] by (auto split: if_splits)
next
  fix k assume k: "k \<in> dom (m(a \<mapsto> c))"
  show "(m(a \<mapsto> c)) k = (m(a \<mapsto> c)) (cluster_root us k)"
  proof (cases "k = a")
    case True
    then show ?thesis by (simp add: root)
  next
    case False
    then have kd: "k \<in> dom m" using k by auto
    have "cluster_root us k \<in> dom m" by (rule rooted_root_dom[OF r kd])
    then have "cluster_root us k \<noteq> a" using a by auto
    then show ?thesis using False rootedD(2)[OF r kd] by simp
  qed
next
  fix k1 k2
  assume k: "k1 \<in> dom (m(a \<mapsto> c))" "k2 \<in> dom (m(a \<mapsto> c))"
    and rt: "cluster_root us k1 = k1" "cluster_root us k2 = k2"
    and eq: "(m(a \<mapsto> c)) k1 = (m(a \<mapsto> c)) k2"
  have old: "m x \<noteq> Some c" for x using rootedD(1)[OF r, of x c] by auto
  show "k1 = k2"
  proof (cases "k1 = a \<or> k2 = a")
    case True
    then show ?thesis using eq old by (auto split: if_splits)
  next
    case False
    then have "k1 \<in> dom m" "k2 \<in> dom m" "m k1 = m k2" using k eq by auto
    then show ?thesis using rootedD(3)[OF r] rt by blast
  qed
qed

lemma rooted_copy:
  assumes r: "rooted us (m, c)" and b: "m b = None" and a: "m a = Some v"
    and root: "cluster_root us b = cluster_root us a" and nr: "cluster_root us b \<noteq> b"
  shows "rooted us (m(b \<mapsto> v), c)"
  unfolding rooted_def prod.case
proof (intro conjI allI ballI impI)
  fix k w assume "(m(b \<mapsto> v)) k = Some w"
  then show "w < c" using rootedD(1)[OF r] a by (auto split: if_splits)
next
  have ad: "a \<in> dom m" using a by auto
  have rd: "cluster_root us a \<in> dom m" by (rule rooted_root_dom[OF r ad])
  fix k assume k: "k \<in> dom (m(b \<mapsto> v))"
  show "(m(b \<mapsto> v)) k = (m(b \<mapsto> v)) (cluster_root us k)"
  proof (cases "k = b")
    case True
    have "cluster_root us a \<noteq> b" using rd b by auto
    then have "(m(b \<mapsto> v)) (cluster_root us b) = m (cluster_root us a)"
      by (simp add: root)
    also have "\<dots> = Some v" using rootedD(2)[OF r ad] a by simp
    finally show ?thesis using True by simp
  next
    case False
    then have kd: "k \<in> dom m" using k by auto
    have "cluster_root us k \<in> dom m" by (rule rooted_root_dom[OF r kd])
    then have "cluster_root us k \<noteq> b" using b by auto
    then show ?thesis using False rootedD(2)[OF r kd] by simp
  qed
next
  fix k1 k2
  assume k: "k1 \<in> dom (m(b \<mapsto> v))" "k2 \<in> dom (m(b \<mapsto> v))"
    and rt: "cluster_root us k1 = k1" "cluster_root us k2 = k2"
    and eq: "(m(b \<mapsto> v)) k1 = (m(b \<mapsto> v)) k2"
  have "k1 \<noteq> b" "k2 \<noteq> b" using rt nr by auto
  then have "k1 \<in> dom m" "k2 \<in> dom m" "m k1 = m k2" using k eq by auto
  then show "k1 = k2" using rootedD(3)[OF r] rt by blast
qed

lemma sorted_prefix_has_smaller:
  fixes p :: "nat \<times> nat"
  assumes "sorted (ps @ p # qs)" "distinct (ps @ p # qs)" "q \<in> set (ps @ p # qs)" "q < p"
  shows "q \<in> set ps"
proof (rule ccontr)
  assume n: "q \<notin> set ps"
  then have "q \<in> set qs" using assms(3,4) by auto
  then have "p \<le> q" using assms(1) by (auto simp: sorted_append)
  then show False using assms(4) by simp
qed

lemma coalesce_step_rooted:
  assumes r: "rooted us (m, c)" and d: "dom m = fst ` set ps \<union> snd ` set ps"
    and us: "us = ps @ (a, b) # qs" and so: "sorted us" and di: "distinct us"
    and ab: "a \<le> b"
  shows "rooted us (coalesce_step (m, c) (a, b))
         \<and> dom (fst (coalesce_step (m, c) (a, b))) = fst ` set (ps @ [(a, b)]) \<union> snd ` set (ps @ [(a, b)])"
proof -
  have before: "q \<in> set ps" if "q \<in> set us" "q < (a, b)" for q
    using sorted_prefix_has_smaller[OF so[unfolded us] di[unfolded us]] that
    by (simp add: us)
  have mem: "(a, b) \<in> set us" by (simp add: us)
  have rootA: "cluster_root us a = a" if "m a = None"
  proof -
    have "least_partner us a = a"
    proof (rule ccontr)
      assume "least_partner us a \<noteq> a"
      then have lt: "least_partner us a < a" and "(least_partner us a, a) \<in> set us"
        using least_partner_le[of us a] least_partner_mem[of us a] by auto
      then have "(least_partner us a, a) \<in> set ps" by (intro before) simp_all
      then have "a \<in> snd ` set ps" by force
      then show False using that d by auto
    qed
    then show ?thesis by (rule cluster_root_self)
  qed
  have partnerB: "least_partner us b = a" if "m b = None" "a \<noteq> b"
  proof -
    have le: "least_partner us b \<le> a" by (rule least_partner_le_partner[OF mem])
    show ?thesis
    proof (rule ccontr)
      assume "least_partner us b \<noteq> a"
      then have lt: "least_partner us b < a" using le by simp
      then have "least_partner us b \<noteq> b" using ab by simp
      then have "(least_partner us b, b) \<in> set us" using least_partner_mem[of us b] by auto
      then have "(least_partner us b, b) \<in> set ps" using lt by (intro before) simp_all
      then have "b \<in> snd ` set ps" by force
      then show False using that(1) d by auto
    qed
  qed
  define m1 where "m1 = (case m a of Some v \<Rightarrow> m | None \<Rightarrow> m(a \<mapsto> c))"
  define c1 where "c1 = (case m a of Some v \<Rightarrow> c | None \<Rightarrow> c + 1)"
  define idf where "idf = (case m a of Some v \<Rightarrow> v | None \<Rightarrow> c)"
  have r1: "rooted us (m1, c1)"
    using r rootA by (cases "m a") (simp_all add: m1_def c1_def rooted_fresh)
  have a1: "m1 a = Some idf" by (cases "m a") (simp_all add: m1_def idf_def)
  have d1: "dom m1 = insert a (dom m)" by (cases "m a") (auto simp: m1_def)
  have step: "coalesce_step (m, c) (a, b)
              = (case m1 b of Some v \<Rightarrow> (m1, c1) | None \<Rightarrow> (m1(b \<mapsto> idf), c1))"
    by (cases "m a"; cases "m b")
       (auto simp: coalesce_step_def m1_def c1_def idf_def split: option.splits)
  show ?thesis
  proof (cases "m1 b")
    case (Some v)
    then have "b \<in> dom m1" by auto
    then have "dom m1 = fst ` set (ps @ [(a, b)]) \<union> snd ` set (ps @ [(a, b)])"
      using d1 d by auto
    then show ?thesis using r1 by (simp add: step Some)
  next
    case None
    then have "b \<notin> dom m1" by auto
    then have "b \<notin> insert a (dom m)" using d1 by simp
    then have nb: "m b = None" and ne: "a \<noteq> b" by auto
    have pb: "least_partner us b = a" by (rule partnerB[OF nb ne])
    have lt: "a < b" using ab ne by simp
    have rb: "cluster_root us b = cluster_root us a" by (rule cluster_root_step[OF pb lt])
    have "cluster_root us b \<noteq> b"
    proof
      assume "cluster_root us b = b"
      then have "least_partner us b = b" using cluster_root_fix[of us b] by simp
      then show False using pb ne by simp
    qed
    then have "rooted us (m1(b \<mapsto> idf), c1)" by (intro rooted_copy[OF r1 None a1 rb])
    moreover have "dom (m1(b \<mapsto> idf)) = fst ` set (ps @ [(a, b)]) \<union> snd ` set (ps @ [(a, b)])"
      using d1 d by auto
    ultimately show ?thesis by (simp add: step None)
  qed
qed

lemma coalesce_prefix_rooted:
  assumes "sorted us" "distinct us" "\<forall>p\<in>set us. fst p \<le> snd p"
  shows "us = ps @ qs \<Longrightarrow>
         rooted us (foldl coalesce_step (Map.empty, 0) ps)
         \<and> dom (fst (foldl coalesce_step (Map.empty, 0) ps)) = fst ` set ps \<union> snd ` set ps"
proof (induction ps arbitrary: qs rule: rev_induct)
  case Nil
  show ?case by (simp add: rooted_def)
next
  case (snoc p ps)
  obtain a b where p: "p = (a, b)" by (cases p)
  obtain m c where mc: "foldl coalesce_step (Map.empty, 0) ps = (m, c)"
    by (cases "foldl coalesce_step (Map.empty, 0) ps")
  have us: "us = ps @ (a, b) # qs" using snoc.prems by (simp add: p)
  from snoc.IH[OF us] have r: "rooted us (m, c)" and d: "dom m = fst ` set ps \<union> snd ` set ps"
    by (simp_all add: mc)
  have ab: "a \<le> b" using assms(3) us by auto
  from coalesce_step_rooted[OF r d us assms(1,2) ab]
  show ?case by (simp add: mc p)
qed

lemma coalesce_same_root:
  assumes "sorted us" "distinct us" "\<forall>p\<in>set us. fst p \<le> snd p"
    and "fst (foldl coalesce_step (Map.empty, 0) us) s1 = Some v1"
    and "fst (foldl coalesce_step (Map.empty, 0) us) s2 = Some v2"
  shows "v1 = v2 \<longleftrightarrow> cluster_root us s1 = cluster_root us s2"
proof -
  obtain m c where mc: "foldl coalesce_step (Map.empty, 0) us = (m, c)"
    by (cases "foldl coalesce_step (Map.empty, 0) us")
  from coalesce_prefix_rooted[OF assms(1-3), of us "[]"] have r: "rooted us (m, c)"
    by (simp add: mc)
  have s: "m s1 = Some v1" "m s2 = Some v2" using assms(4,5) by (simp_all add: mc)
  then have d: "s1 \<in> dom m" "s2 \<in> dom m" by auto
  have e1: "m (cluster_root us s1) = Some v1" using rootedD(2)[OF r d(1)] s(1) by simp
  have e2: "m (cluster_root us s2) = Some v2" using rootedD(2)[OF r d(2)] s(2) by simp
  show ?thesis
  proof
    assume "v1 = v2"
    then have "m (cluster_root us s1) = m (cluster_root us s2)" using e1 e2 by simp
    then show "cluster_root us s1 = cluster_root us s2"
      using rootedD(3)[OF r rooted_root_dom[OF r d(1)] rooted_root_dom[OF r d(2)]]
      by (simp add: cluster_root_idem)
  next
    assume "cluster_root us s1 = cluster_root us s2"
    then show "v1 = v2" using e1 e2 by simp
  qed
qed

text \<open>
  Two provisional ids share a handle when one tensor handle is seen with both. The handles
  of an id are its own when they are seen with no other id. \<open>unique_pairs_of\<close> is the
  sorted vector \<^verbatim>\<open>unique_pairs\<close> of step 3, as a function of \<^verbatim>\<open>tensor_set\<close> and of the
  entries of step 1.
\<close>

definition shares_handle :: "tensor_storage_pair list \<Rightarrow> nat \<Rightarrow> nat \<Rightarrow> bool" where
  "shares_handle T s s' \<longleftrightarrow>
     (\<exists>t\<in>set T. \<exists>u\<in>set T. pair_impl t \<noteq> 0 \<and> pair_impl t = pair_impl u
        \<and> pair_storage_id t = s \<and> pair_storage_id u = s')"

definition own_handles :: "tensor_storage_pair list \<Rightarrow> nat \<Rightarrow> bool" where
  "own_handles T s \<longleftrightarrow> (\<forall>s'. shares_handle T s s' \<longrightarrow> s' = s)"

definition unique_pairs_of :: "nat set \<Rightarrow> tensor_storage_pair list \<Rightarrow> (nat \<times> nat) list" where
  "unique_pairs_of tensor_set all_tensors =
     sort (snd (foldl same_group_step (Map.empty, [])
                  (filter (\<lambda>t. pair_storage_id t \<in> tensor_set) all_tensors)))"

lemma shares_handle_sym: "shares_handle T s s' \<Longrightarrow> shares_handle T s' s"
  unfolding shares_handle_def by metis

text \<open>
  Step 2 records every pair once, smaller id first, and only pairs of ids that share a
  handle.
\<close>

definition group_inv ::
  "tensor_storage_pair list \<Rightarrow> (nat \<rightharpoonup> nat) \<times> (nat \<times> nat) list \<Rightarrow> bool" where
  "group_inv T s \<longleftrightarrow>
     (case s of (m, g) \<Rightarrow>
        distinct g
      \<and> (\<forall>p\<in>set g. fst p \<le> snd p \<and> shares_handle T (fst p) (snd p))
      \<and> (\<forall>i s. m i = Some s \<longrightarrow> (\<exists>u\<in>set T. pair_impl u = i \<and> pair_storage_id u = s)))"

lemma same_group_step_inv:
  assumes inv: "group_inv T (m, g)" and t: "t \<in> set T"
  shows "group_inv T (same_group_step (m, g) t)"
proof (cases "pair_impl t = 0")
  case True
  then show ?thesis using inv by (simp add: same_group_step_def)
next
  case False
  from inv have dg: "distinct g"
    and pg: "\<forall>p\<in>set g. fst p \<le> snd p \<and> shares_handle T (fst p) (snd p)"
    and mi: "\<forall>i s. m i = Some s \<longrightarrow> (\<exists>u\<in>set T. pair_impl u = i \<and> pair_storage_id u = s)"
    unfolding group_inv_def prod.case by blast+
  define first where "first = (case m (pair_impl t) of Some sid \<Rightarrow> sid | None \<Rightarrow> pair_storage_id t)"
  define m' where "m' = (case m (pair_impl t) of Some sid \<Rightarrow> m
                         | None \<Rightarrow> m(pair_impl t \<mapsto> pair_storage_id t))"
  define p where "p = (if first < pair_storage_id t then (first, pair_storage_id t)
                       else (pair_storage_id t, first))"
  have step: "same_group_step (m, g) t = (m', List.insert p g)"
    using False
    by (cases "m (pair_impl t)") (simp_all add: same_group_step_def first_def m'_def p_def)
  obtain u where u: "u \<in> set T" "pair_impl u = pair_impl t" "pair_storage_id u = first"
  proof (cases "m (pair_impl t)")
    case None
    then show ?thesis using that[of t] t by (simp add: first_def)
  next
    case (Some sid)
    then show ?thesis using mi that by (auto simp: first_def)
  qed
  have sh: "shares_handle T first (pair_storage_id t)"
    unfolding shares_handle_def using u t False by (intro bexI[of _ u] bexI[of _ t]) simp_all
  have pp: "fst p \<le> snd p \<and> shares_handle T (fst p) (snd p)"
    using sh shares_handle_sym[OF sh] by (simp add: p_def)
  have m'i: "\<exists>u\<in>set T. pair_impl u = i \<and> pair_storage_id u = s" if "m' i = Some s" for i s
  proof (cases "m (pair_impl t)")
    case None
    then have "m' = m(pair_impl t \<mapsto> pair_storage_id t)" by (simp add: m'_def)
    then show ?thesis using that mi t by (cases "i = pair_impl t") auto
  next
    case (Some sid)
    then have "m' = m" by (simp add: m'_def)
    then show ?thesis using that mi by simp
  qed
  show ?thesis
    unfolding step group_inv_def prod.case
    using dg pg pp m'i by (auto simp: distinct_insert)
qed

lemma same_group_fold_inv:
  "group_inv T s \<Longrightarrow> set P \<subseteq> set T \<Longrightarrow> group_inv T (foldl same_group_step s P)"
proof (induction P arbitrary: s)
  case Nil
  then show ?case by simp
next
  case (Cons t P)
  obtain m g where s: "s = (m, g)" by (cases s)
  have "group_inv T (same_group_step s t)"
    unfolding s using Cons.prems by (intro same_group_step_inv) (simp_all add: s)
  then show ?case using Cons.IH Cons.prems(2) by simp
qed

lemma unique_pairs_of_props:
  shows "sorted (unique_pairs_of ts T)" and "distinct (unique_pairs_of ts T)"
    and "\<forall>p\<in>set (unique_pairs_of ts T). fst p \<le> snd p"
    and "\<forall>p\<in>set (unique_pairs_of ts T). shares_handle T (fst p) (snd p)"
proof -
  let ?P = "filter (\<lambda>t. pair_storage_id t \<in> ts) T"
  obtain m g where mg: "foldl same_group_step (Map.empty, []) ?P = (m, g)"
    by (cases "foldl same_group_step (Map.empty, []) ?P")
  have "group_inv T (Map.empty, [])" by (simp add: group_inv_def)
  then have "group_inv T (foldl same_group_step (Map.empty, []) ?P)"
    by (rule same_group_fold_inv) auto
  then have g: "distinct g" "\<forall>p\<in>set g. fst p \<le> snd p \<and> shares_handle T (fst p) (snd p)"
    unfolding mg group_inv_def prod.case by blast+
  have u: "unique_pairs_of ts T = sort g" by (simp add: unique_pairs_of_def mg)
  show "sorted (unique_pairs_of ts T)" by (simp add: u)
  show "distinct (unique_pairs_of ts T)" using g(1) by (simp add: u)
  show "\<forall>p\<in>set (unique_pairs_of ts T). fst p \<le> snd p" using g(2) by (simp add: u)
  show "\<forall>p\<in>set (unique_pairs_of ts T). shares_handle T (fst p) (snd p)"
    using g(2) by (simp add: u)
qed

lemma alone_root:
  assumes "\<forall>p\<in>set us. fst p = s \<or> snd p = s \<longrightarrow> p = (s, s)"
  shows "cluster_root us s = s" and "cluster_root us s' = s \<Longrightarrow> s' = s"
proof -
  have "least_partner us s = s"
    using least_partner_mem[of us s] assms by force
  then show "cluster_root us s = s" by (rule cluster_root_self)
  show "s' = s" if r: "cluster_root us s' = s"
  proof (rule ccontr)
    assume "s' \<noteq> s"
    then have "cluster_root us s' \<noteq> s'" using r by simp
    from cluster_root_other[OF this] obtain k where "(s, k) \<in> set us" "s < k"
      unfolding r by blast
    then show False using assms by force
  qed
qed

lemma own_handles_alone:
  assumes "own_handles T s"
  shows "\<forall>p\<in>set (unique_pairs_of ts T). fst p = s \<or> snd p = s \<longrightarrow> p = (s, s)"
proof (intro ballI impI)
  fix p assume p: "p \<in> set (unique_pairs_of ts T)" and s: "fst p = s \<or> snd p = s"
  have sh: "shares_handle T (fst p) (snd p)" using unique_pairs_of_props(4) p by blast
  from s show "p = (s, s)"
  proof
    assume f: "fst p = s"
    then have "snd p = s" using sh assms by (simp add: own_handles_def)
    then show ?thesis using f by (simp add: prod_eq_iff)
  next
    assume f: "snd p = s"
    have "shares_handle T s (fst p)" using shares_handle_sym[OF sh] f by simp
    then have "fst p = s" using assms by (simp add: own_handles_def)
    then show ?thesis using f by (simp add: prod_eq_iff)
  qed
qed

lemma own_handles_roots_differ:
  assumes "own_handles T s1 \<or> own_handles T s2" "s1 \<noteq> s2"
  shows "cluster_root (unique_pairs_of ts T) s1 \<noteq> cluster_root (unique_pairs_of ts T) s2"
proof
  assume eq: "cluster_root (unique_pairs_of ts T) s1 = cluster_root (unique_pairs_of ts T) s2"
  from assms(1) show False
  proof
    assume "own_handles T s1"
    note a = alone_root[OF own_handles_alone[OF this, of ts]]
    from a(2)[of s2] a(1) eq show False using assms(2) by simp
  next
    assume "own_handles T s2"
    note a = alone_root[OF own_handles_alone[OF this, of ts]]
    from a(2)[of s1] a(1) eq show False using assms(2) by simp
  qed
qed


lemma same_group_covers:
  "(\<forall>p\<in>set g. p \<in> set (snd (foldl same_group_step (m, g) P)))
   \<and> (\<forall>t\<in>set P. pair_impl t \<noteq> 0 \<longrightarrow>
         (\<exists>p\<in>set (snd (foldl same_group_step (m, g) P)).
            fst p = pair_storage_id t \<or> snd p = pair_storage_id t))"
proof (induction P arbitrary: m g)
  case Nil
  show ?case by simp
next
  case (Cons x xs)
  obtain m' g' where step: "same_group_step (m, g) x = (m', g')"
    by (cases "same_group_step (m, g) x")
  have keep: "set g \<subseteq> set g'"
    using step by (auto simp: same_group_step_def Let_def split: if_splits option.splits)
  have new: "\<exists>p\<in>set g'. fst p = pair_storage_id x \<or> snd p = pair_storage_id x"
    if "pair_impl x \<noteq> 0"
    using step that by (auto simp: same_group_step_def Let_def split: if_splits option.splits)
  note ih = Cons.IH[where m = m' and g = g']
  have f: "foldl same_group_step (m, g) (x # xs) = foldl same_group_step (m', g') xs"
    by (simp add: step)
  show ?case unfolding f using ih keep new by (auto simp: subset_iff)
qed

lemma coalesce_step_dom:
  assumes "coalesce_step (m, c) p = (m', c')"
  shows "dom m \<subseteq> dom m'" "fst p \<in> dom m'" "snd p \<in> dom m'"
  using assms
  by (auto simp: coalesce_step_def Let_def split: option.splits if_splits prod.splits)

lemma coalesce_covers:
  "dom m \<subseteq> dom (fst (foldl coalesce_step (m, c) us))
   \<and> (\<forall>p\<in>set us. fst p \<in> dom (fst (foldl coalesce_step (m, c) us))
                 \<and> snd p \<in> dom (fst (foldl coalesce_step (m, c) us)))"
proof (induction us arbitrary: m c)
  case Nil
  show ?case by simp
next
  case (Cons p ps)
  obtain m' c' where step: "coalesce_step (m, c) p = (m', c')"
    by (cases "coalesce_step (m, c) p")
  note d = coalesce_step_dom[OF step]
  note ih = Cons.IH[where m = m' and c = c']
  have f: "foldl coalesce_step (m, c) (p # ps) = foldl coalesce_step (m', c') ps"
    by (simp add: step)
  show ?case unfolding f using ih d by (auto simp: subset_iff)
qed

lemma write_back_total:
  assumes "\<forall>t\<in>set P. pair_storage_id t \<in> dom id_map"
  shows "\<exists>st'. for_each (write_back id_map) P st = Some (Inr st')"
  using assms
proof (induction P arbitrary: st)
  case Nil
  show ?case by (simp add: ok_def)
next
  case (Cons t ts)
  from Cons.prems obtain v where v: "id_map (pair_storage_id t) = Some v" by auto
  then have "write_back id_map st t = Some (Inr (set_id (pair_id_ref t) v st))"
    by (simp add: write_back_def ok_def)
  moreover from Cons.IH[of "set_id (pair_id_ref t) v st"] Cons.prems
  obtain st' where "for_each (write_back id_map) ts (set_id (pair_id_ref t) v st) = Some (Inr st')"
    by auto
  ultimately show ?case by (simp add: bind_outcome_def)
qed

lemma calculate_unique_tensor_ids_returns:
  "\<exists>st'. calculate_unique_tensor_ids sorted_results st = Some (Inr st')"
proof -
  obtain c l ts T where fl: "flatten st sorted_results = (c, l, ts, T)"
    by (cases "flatten st sorted_results")
  let ?P = "filter (\<lambda>t. pair_storage_id t \<in> ts) T"
  let ?G = "snd (foldl same_group_step (Map.empty, []) ?P)"
  let ?M = "fst (foldl coalesce_step (Map.empty, 0) (sort ?G))"
  have "pair_storage_id t \<in> dom ?M" if t: "t \<in> set ?P" for t
  proof -
    from t have "pair_storage_id t \<in> ts" by simp
    then obtain u where u: "u \<in> set T" "pair_impl u \<noteq> 0" "pair_storage_id u = pair_storage_id t"
      using tensor_set_referenced[OF fl] by (auto simp: referenced_def)
    then have "u \<in> set ?P" using \<open>pair_storage_id t \<in> ts\<close> by simp
    with same_group_covers[where g = "[]" and m = Map.empty and P = ?P] u(2,3)
    obtain p where p: "p \<in> set ?G" "fst p = pair_storage_id t \<or> snd p = pair_storage_id t"
      by metis
    then have "p \<in> set (sort ?G)" by simp
    with coalesce_covers[where m = Map.empty and c = 0 and us = "sort ?G"] p(2) show ?thesis by metis
  qed
  then have "\<forall>t\<in>set ?P. pair_storage_id t \<in> dom ?M" by blast
  from write_back_total[OF this, of st] show ?thesis
    by (simp add: calculate_unique_tensor_ids_def fl Let_def)
qed

section \<open>Example inputs of the buffer identities\<close>

text \<open>
  An operation on thread 1 with one tensor input (handle address and storage address), and
  an allocation record (a free when the size is negative); no id is assigned yet.
\<close>

definition op_with_input :: "time_t \<Rightarrow> time_t \<Rightarrow> nat \<Rightarrow> nat \<Rightarrow> result" where
  "op_with_input start_ns end_ns impl_addr data_addr =
     \<lparr>start_time_ns = start_ns, start_tid = 1,
      extra_fields = TorchOp end_ns 0 [Some \<lparr>impl = impl_addr, data = data_addr, id = None\<rparr>],
      parent = None, children = [], finished = False\<rparr>"

definition alloc_at :: "time_t \<Rightarrow> nat \<Rightarrow> int \<Rightarrow> result" where
  "alloc_at start_ns address bytes =
     \<lparr>start_time_ns = start_ns, start_tid = 1, extra_fields = Allocation address bytes None,
      parent = None, children = [], finished = False\<rparr>"

lemmas ids_eval = calculate_unique_tensor_ids_def flatten_def flatten_result_def lookup_def
  same_group_step_def coalesce_step_def set_id_def write_back_def Let_def

text \<open>
  An allocation at 4096 that no operation uses, an allocation at 8192 and an operation whose
  input lives at 8192; and the store after the resolution.
\<close>

definition unused_store :: store where
  "unused_store = (\<lambda>_. alloc_at 0 4096 16)(1 := alloc_at 1 8192 32, 2 := op_with_input 2 3 77 8192)"

definition unused_result :: store where
  "unused_result = (\<lambda>_. alloc_at 0 4096 16)
     (1 := (alloc_at 1 8192 32)\<lparr>extra_fields := Allocation 8192 32 (Some 0)\<rparr>,
      2 := (op_with_input 2 3 77 8192)\<lparr>extra_fields :=
             TorchOp 3 0 [Some \<lparr>impl = 77, data = 8192, id = Some 0\<rparr>]\<rparr>)"

definition unused_tensors :: "tensor_storage_pair list" where
  "unused_tensors =
     [\<lparr>pair_impl = 0, pair_storage_id = 0, pair_id_ref = AllocRef 0\<rparr>,
      \<lparr>pair_impl = 0, pair_storage_id = 1, pair_id_ref = AllocRef 1\<rparr>,
      \<lparr>pair_impl = 77, pair_storage_id = 1, pair_id_ref = InputRef 2 0\<rparr>]"

lemma ids_unused:
  "calculate_unique_tensor_ids [0, 1, 2] unused_store = Some (Inr unused_result)"
  by (simp add: ids_eval unused_store_def unused_result_def alloc_at_def op_with_input_def;
      auto simp: fun_eq_iff)

lemma flatten_unused:
  "flatten unused_store [0, 1, 2] = (2, [4096 \<mapsto> 0, 8192 \<mapsto> 1], {1}, unused_tensors)"
  by (simp add: ids_eval unused_store_def alloc_at_def op_with_input_def unused_tensors_def)

text \<open>
  The scenario of the address reuse alone: an allocation of 16 bytes at 4096, the free, and
  an allocation of 32 bytes at 4096.
\<close>

definition reuse_store :: store where
  "reuse_store = (\<lambda>_. alloc_at 0 4096 16)(1 := alloc_at 1 4096 (- 16), 2 := alloc_at 2 4096 32)"

text \<open>
  The same scenario where an operation uses each of the two buffers, through two tensor
  handles (77 and 78); the store after the resolution, and the entries of step 1.
\<close>

definition reuse_seen_store :: store where
  "reuse_seen_store = (\<lambda>_. alloc_at 0 4096 16)
     (1 := op_with_input 1 2 77 4096, 2 := alloc_at 3 4096 (- 16),
      3 := alloc_at 4 4096 32, 4 := op_with_input 5 6 78 4096)"

definition reuse_seen_result :: store where
  "reuse_seen_result = (\<lambda>_. alloc_at 0 4096 16)
     (0 := (alloc_at 0 4096 16)\<lparr>extra_fields := Allocation 4096 16 (Some 0)\<rparr>,
      1 := (op_with_input 1 2 77 4096)\<lparr>extra_fields :=
             TorchOp 2 0 [Some \<lparr>impl = 77, data = 4096, id = Some 0\<rparr>]\<rparr>,
      2 := (alloc_at 3 4096 (- 16))\<lparr>extra_fields := Allocation 4096 (- 16) (Some 0)\<rparr>,
      3 := (alloc_at 4 4096 32)\<lparr>extra_fields := Allocation 4096 32 (Some 1)\<rparr>,
      4 := (op_with_input 5 6 78 4096)\<lparr>extra_fields :=
             TorchOp 6 0 [Some \<lparr>impl = 78, data = 4096, id = Some 1\<rparr>]\<rparr>)"

definition reuse_seen_tensors :: "tensor_storage_pair list" where
  "reuse_seen_tensors =
     [\<lparr>pair_impl = 0, pair_storage_id = 0, pair_id_ref = AllocRef 0\<rparr>,
      \<lparr>pair_impl = 77, pair_storage_id = 0, pair_id_ref = InputRef 1 0\<rparr>,
      \<lparr>pair_impl = 0, pair_storage_id = 0, pair_id_ref = AllocRef 2\<rparr>,
      \<lparr>pair_impl = 0, pair_storage_id = 1, pair_id_ref = AllocRef 3\<rparr>,
      \<lparr>pair_impl = 78, pair_storage_id = 1, pair_id_ref = InputRef 4 0\<rparr>]"

lemma ids_reuse_seen:
  "calculate_unique_tensor_ids [0, 1, 2, 3, 4] reuse_seen_store = Some (Inr reuse_seen_result)"
  by (simp add: ids_eval reuse_seen_store_def reuse_seen_result_def alloc_at_def
        op_with_input_def; auto simp: fun_eq_iff)

lemma flatten_reuse_seen:
  "flatten reuse_seen_store [0, 1, 2, 3, 4] = (2, [4096 \<mapsto> 1], {0, 1}, reuse_seen_tensors)"
  by (simp add: ids_eval reuse_seen_store_def alloc_at_def op_with_input_def
        reuse_seen_tensors_def; auto simp: fun_eq_iff)

text \<open>
  The same scenario where the two operations use one tensor handle (77): the handle is seen
  with both provisional ids, step 2 joins them, and the two allocations get one final id.
\<close>

definition reuse_same_handle_store :: store where
  "reuse_same_handle_store = (\<lambda>_. alloc_at 0 4096 16)
     (1 := op_with_input 1 2 77 4096, 2 := alloc_at 3 4096 (- 16),
      3 := alloc_at 4 4096 32, 4 := op_with_input 5 6 77 4096)"

lemma reuse_same_handle_joined:
  "\<exists>st'. calculate_unique_tensor_ids [0, 1, 2, 3, 4] reuse_same_handle_store = Some (Inr st')
         \<and> alloc_id (extra_fields (st' 0)) = Some 0
         \<and> alloc_id (extra_fields (st' 3)) = Some 0"
  by (simp add: ids_eval reuse_same_handle_store_def alloc_at_def op_with_input_def)

text \<open>
  The same scenario where no handle is seen with both buffers, but handle 77 is seen with
  the first buffer and with a third storage (at 8192), and handle 78 with that storage and
  with the second buffer: step 3 leads both buffers to one representative, and the two
  allocations get one final id.
\<close>

definition reuse_chain_store :: store where
  "reuse_chain_store = (\<lambda>_. alloc_at 0 4096 16)
     (1 := op_with_input 1 2 77 4096, 2 := alloc_at 3 4096 (- 16),
      3 := op_with_input 4 5 77 8192, 4 := op_with_input 6 7 78 8192,
      5 := alloc_at 8 4096 32, 6 := op_with_input 9 10 78 4096)"

lemma reuse_joined_through_third_cluster:
  "\<exists>st'. calculate_unique_tensor_ids [0, 1, 2, 3, 4, 5, 6] reuse_chain_store = Some (Inr st')
         \<and> alloc_id (extra_fields (st' 0)) = Some 0
         \<and> alloc_id (extra_fields (st' 5)) = Some 0"
  by (simp add: ids_eval reuse_chain_store_def alloc_at_def op_with_input_def)

section \<open>Allocations that no operation references\<close>

text \<open>
  C8. When no entry of an operation input carries the provisional id of an allocation event
  (its live-address cluster is not referenced by any operation input), the resolution
  returns and leaves the event as it was: no final buffer identity is written back to it.
\<close>

theorem unreferenced_allocation_gets_no_id:
  assumes "flatten st sorted_results = (current_id, live_storage, tensor_set, all_tensors)"
    and "extra_fields (st r) = Allocation a_ptr a_size a_id"
    and "\<forall>t\<in>set all_tensors. pair_id_ref t = AllocRef r
           \<longrightarrow> \<not> referenced all_tensors (pair_storage_id t)"
  shows "\<exists>st'. calculate_unique_tensor_ids sorted_results st = Some (Inr st')
              \<and> st' r = st r \<and> alloc_id (extra_fields (st' r)) = a_id"
proof -
  obtain st' where run: "calculate_unique_tensor_ids sorted_results st = Some (Inr st')"
    using calculate_unique_tensor_ids_returns by blast
  let ?tensors = "filter (\<lambda>t. pair_storage_id t \<in> tensor_set) all_tensors"
  from run assms(1) obtain id_map where
    wb: "for_each (write_back id_map) ?tensors st = Some (Inr st')"
    by (auto simp: calculate_unique_tensor_ids_def Let_def)
  have "\<forall>t\<in>set ?tensors. pair_id_ref t \<noteq> AllocRef r"
    using assms(3) tensor_set_referenced[OF assms(1)] by auto
  from write_back_keeps_alloc[OF wb assms(2) this] show ?thesis using assms(2) run by simp
qed

theorem unreferenced_allocation_gets_no_id_witness:
  "calculate_unique_tensor_ids [0, 1, 2] unused_store = Some (Inr unused_result)
   \<and> extra_fields (unused_store 0) = Allocation 4096 16 None
   \<and> \<not> referenced unused_tensors 0
   \<and> unused_result 0 = unused_store 0
   \<and> alloc_id (extra_fields (unused_result 0)) = None
   \<and> alloc_id (extra_fields (unused_result 1)) = Some 0"
proof -
  have a: "extra_fields (unused_store 0) = Allocation 4096 16 None"
    by (simp add: unused_store_def alloc_at_def)
  have n: "\<not> referenced unused_tensors 0"
    by (simp add: referenced_def unused_tensors_def)
  have u: "\<forall>t\<in>set unused_tensors. pair_id_ref t = AllocRef 0
             \<longrightarrow> \<not> referenced unused_tensors (pair_storage_id t)"
    by (simp add: referenced_def unused_tensors_def)
  from unreferenced_allocation_gets_no_id[OF flatten_unused a u] ids_unused
  have "unused_result 0 = unused_store 0 \<and> alloc_id (extra_fields (unused_result 0)) = None"
    by auto
  moreover have "alloc_id (extra_fields (unused_result 1)) = Some 0"
    by (simp add: unused_result_def)
  ultimately show ?thesis using ids_unused a n by blast
qed

section \<open>Address reuse\<close>

text \<open>
  C4 (as stated). The scenario alone, an allocation of 16 bytes at an address, the free of the
  address and an allocation of 32 bytes at the address, does not yield two distinct
  identities: no operation input references either buffer, both entries are pruned, and the
  two allocations keep no identity at all.
\<close>

theorem reuse_without_inputs_gets_no_identity:
  "calculate_unique_tensor_ids [0, 1, 2] reuse_store = Some (Inr reuse_store)
   \<and> extra_fields (reuse_store 0) = Allocation 4096 16 None
   \<and> extra_fields (reuse_store 1) = Allocation 4096 (- 16) None
   \<and> extra_fields (reuse_store 2) = Allocation 4096 32 None
   \<and> alloc_id (extra_fields (reuse_store 0)) = None
   \<and> alloc_id (extra_fields (reuse_store 2)) = None"
  by (simp add: ids_eval reuse_store_def alloc_at_def)

text \<open>
  C4 (amended). Two allocation events at one address, with a free of the address between
  them, always get different provisional ids in step 1, the later one the larger. When an
  operation input references the provisional id of each of the two, the resolution returns
  and writes a final buffer identity to both; the two identities are equal exactly when
  step 3 leads the two provisional ids to the same representative, and they are different
  whenever the tensor handles seen with one of the two provisional ids are seen with no
  other provisional id.
\<close>

theorem reused_address_gets_new_identity:
  assumes "sorted_results = before @ a1 # m1 @ f # m2 @ a2 # after"
    and "distinct sorted_results"
    and "extra_fields (st a1) = Allocation x size1 id1"
    and "extra_fields (st f) = Allocation x sizef idf" and "sizef < 0"
    and "extra_fields (st a2) = Allocation x size2 id2"
    and "flatten st sorted_results = (current_id, live_storage, tensor_set, all_tensors)"
  shows "\<exists>t1 t2. t1 \<in> set all_tensors \<and> t2 \<in> set all_tensors
           \<and> pair_id_ref t1 = AllocRef a1 \<and> pair_id_ref t2 = AllocRef a2
           \<and> pair_storage_id t1 < pair_storage_id t2
           \<and> (referenced all_tensors (pair_storage_id t1)
                \<longrightarrow> referenced all_tensors (pair_storage_id t2)
                \<longrightarrow> (\<exists>st' v1 v2.
                       calculate_unique_tensor_ids sorted_results st = Some (Inr st')
                     \<and> alloc_id (extra_fields (st' a1)) = Some v1
                     \<and> alloc_id (extra_fields (st' a2)) = Some v2
                     \<and> (v1 = v2 \<longleftrightarrow>
                          cluster_root (unique_pairs_of tensor_set all_tensors) (pair_storage_id t1)
                          = cluster_root (unique_pairs_of tensor_set all_tensors) (pair_storage_id t2))
                     \<and> (own_handles all_tensors (pair_storage_id t1)
                          \<or> own_handles all_tensors (pair_storage_id t2) \<longrightarrow> v1 \<noteq> v2)))"
proof -
  from flatten_reuse[OF assms(7)[unfolded assms(1)] assms(2)[unfolded assms(1)] assms(3-6)]
  obtain Ta sid1 Tb sid2 Tc where
    T: "all_tensors = Ta @ \<lparr>pair_impl = 0, pair_storage_id = sid1, pair_id_ref = AllocRef a1\<rparr>
                  # Tb @ \<lparr>pair_impl = 0, pair_storage_id = sid2, pair_id_ref = AllocRef a2\<rparr>
                  # Tc"
    and lt: "sid1 < sid2"
    and refs: "\<forall>t\<in>set Ta \<union> set Tb \<union> set Tc.
               pair_id_ref t \<noteq> AllocRef a1 \<and> pair_id_ref t \<noteq> AllocRef a2"
    by blast
  let ?t1 = "\<lparr>pair_impl = 0, pair_storage_id = sid1, pair_id_ref = AllocRef a1\<rparr>"
  let ?t2 = "\<lparr>pair_impl = 0, pair_storage_id = sid2, pair_id_ref = AllocRef a2\<rparr>"
  let ?U = "unique_pairs_of tensor_set all_tensors"
  have a12: "a1 \<noteq> a2" using assms(2) unfolding assms(1) by auto
  have final: "\<exists>st' v1 v2.
                       calculate_unique_tensor_ids sorted_results st = Some (Inr st')
                     \<and> alloc_id (extra_fields (st' a1)) = Some v1
                     \<and> alloc_id (extra_fields (st' a2)) = Some v2
                     \<and> (v1 = v2 \<longleftrightarrow> cluster_root ?U sid1 = cluster_root ?U sid2)
                     \<and> (own_handles all_tensors sid1 \<or> own_handles all_tensors sid2
                          \<longrightarrow> v1 \<noteq> v2)"
    if used: "referenced all_tensors sid1" "referenced all_tensors sid2"
  proof -
    obtain st' where run: "calculate_unique_tensor_ids sorted_results st = Some (Inr st')"
      using calculate_unique_tensor_ids_returns by blast
    let ?keep = "filter (\<lambda>t. pair_storage_id t \<in> tensor_set)"
    let ?P = "?keep all_tensors"
    define id_map where "id_map = fst (foldl coalesce_step (Map.empty, 0) ?U)"
    have wb: "for_each (write_back id_map) ?P st = Some (Inr st')"
      using run assms(7)
      by (simp add: calculate_unique_tensor_ids_def Let_def id_map_def unique_pairs_of_def)
    have in1: "sid1 \<in> tensor_set" and in2: "sid2 \<in> tensor_set"
      using used tensor_set_referenced[OF assms(7)] by simp_all
    have P1: "?P = ?keep Ta @ ?t1 # (?keep Tb @ ?t2 # ?keep Tc)"
      using in1 in2 by (simp add: T)
    have P2: "?P = (?keep Ta @ ?t1 # ?keep Tb) @ ?t2 # ?keep Tc"
      using in1 in2 by (simp add: T)
    have o1: "\<forall>u\<in>set (?keep Ta) \<union> set (?keep Tb @ ?t2 # ?keep Tc). pair_id_ref u \<noteq> AllocRef a1"
      using refs a12 by auto
    have o2: "\<forall>u\<in>set (?keep Ta @ ?t1 # ?keep Tb) \<union> set (?keep Tc). pair_id_ref u \<noteq> AllocRef a2"
      using refs a12 by auto
    from write_back_alloc[OF wb[unfolded P1] assms(3) _ o1]
    obtain v1 where v1: "id_map sid1 = Some v1"
      "extra_fields (st' a1) = Allocation x size1 (Some v1)" by auto
    from write_back_alloc[OF wb[unfolded P2] assms(6) _ o2]
    obtain v2 where v2: "id_map sid2 = Some v2"
      "extra_fields (st' a2) = Allocation x size2 (Some v2)" by auto
    note props = unique_pairs_of_props[of tensor_set all_tensors]
    have iff: "v1 = v2 \<longleftrightarrow> cluster_root ?U sid1 = cluster_root ?U sid2"
      by (rule coalesce_same_root[OF props(1-3) v1(1)[unfolded id_map_def]
            v2(1)[unfolded id_map_def]])
    have ne: "sid1 \<noteq> sid2" using lt by simp
    have "v1 \<noteq> v2" if "own_handles all_tensors sid1 \<or> own_handles all_tensors sid2"
      using own_handles_roots_differ[OF that ne, of tensor_set] iff by simp
    then show ?thesis using run v1(2) v2(2) iff by auto
  qed
  show ?thesis
    using lt final by (intro exI[of _ ?t1] exI[of _ ?t2]) (simp add: T)
qed

theorem reused_address_gets_new_identity_witness:
  "calculate_unique_tensor_ids [0, 1, 2, 3, 4] reuse_seen_store = Some (Inr reuse_seen_result)
   \<and> [0, 1, 2, 3, 4] = [] @ 0 # [1] @ 2 # [] @ 3 # [4 :: nat]
   \<and> distinct [0, 1, 2, 3, 4 :: nat]
   \<and> extra_fields (reuse_seen_store 0) = Allocation 4096 16 None
   \<and> extra_fields (reuse_seen_store 2) = Allocation 4096 (- 16) None
   \<and> extra_fields (reuse_seen_store 3) = Allocation 4096 32 None
   \<and> referenced reuse_seen_tensors 0 \<and> referenced reuse_seen_tensors 1
   \<and> own_handles reuse_seen_tensors 0
   \<and> alloc_id (extra_fields (reuse_seen_result 0)) = Some 0
   \<and> alloc_id (extra_fields (reuse_seen_result 3)) = Some 1
   \<and> (\<exists>v1 v2. alloc_id (extra_fields (reuse_seen_result 0)) = Some v1
            \<and> alloc_id (extra_fields (reuse_seen_result 3)) = Some v2 \<and> v1 \<noteq> v2)"
proof -
  have l: "[0, 1, 2, 3, 4] = [] @ 0 # [1] @ 2 # [] @ 3 # [4 :: nat]" by simp
  have d: "distinct [0, 1, 2, 3, 4 :: nat]" by simp
  have e: "extra_fields (reuse_seen_store 0) = Allocation 4096 16 None"
    "extra_fields (reuse_seen_store 2) = Allocation 4096 (- 16) None"
    "extra_fields (reuse_seen_store 3) = Allocation 4096 32 None"
    by (simp_all add: reuse_seen_store_def alloc_at_def)
  have n: "(- 16 :: int) < 0" by simp
  have r: "referenced reuse_seen_tensors 0" "referenced reuse_seen_tensors 1"
    by (simp_all add: referenced_def reuse_seen_tensors_def)
  have o: "own_handles reuse_seen_tensors 0"
    by (auto simp: own_handles_def shares_handle_def reuse_seen_tensors_def)
  have ids: "alloc_id (extra_fields (reuse_seen_result 0)) = Some 0"
    "alloc_id (extra_fields (reuse_seen_result 3)) = Some 1"
    by (simp_all add: reuse_seen_result_def)
  from reused_address_gets_new_identity[OF l d e(1) e(2) n e(3) flatten_reuse_seen]
  obtain t1 t2 where t: "t1 \<in> set reuse_seen_tensors" "t2 \<in> set reuse_seen_tensors"
    "pair_id_ref t1 = AllocRef 0" "pair_id_ref t2 = AllocRef 3"
    and rest: "referenced reuse_seen_tensors (pair_storage_id t1)
         \<longrightarrow> referenced reuse_seen_tensors (pair_storage_id t2)
         \<longrightarrow> (\<exists>st' v1 v2.
               calculate_unique_tensor_ids [0, 1, 2, 3, 4] reuse_seen_store = Some (Inr st')
             \<and> alloc_id (extra_fields (st' 0)) = Some v1
             \<and> alloc_id (extra_fields (st' 3)) = Some v2
             \<and> (v1 = v2 \<longleftrightarrow>
                  cluster_root (unique_pairs_of {0, 1} reuse_seen_tensors) (pair_storage_id t1)
                  = cluster_root (unique_pairs_of {0, 1} reuse_seen_tensors) (pair_storage_id t2))
             \<and> (own_handles reuse_seen_tensors (pair_storage_id t1)
                  \<or> own_handles reuse_seen_tensors (pair_storage_id t2) \<longrightarrow> v1 \<noteq> v2))"
    by blast
  have s1: "pair_storage_id t1 = 0" using t(1,3) by (auto simp: reuse_seen_tensors_def)
  have s2: "pair_storage_id t2 = 1" using t(2,4) by (auto simp: reuse_seen_tensors_def)
  from rest r o obtain st' v1 v2 where
    run: "calculate_unique_tensor_ids [0, 1, 2, 3, 4] reuse_seen_store = Some (Inr st')"
    and v: "alloc_id (extra_fields (st' 0)) = Some v1" "alloc_id (extra_fields (st' 3)) = Some v2"
      "v1 \<noteq> v2"
    unfolding s1 s2 by blast
  from run ids_reuse_seen have "st' = reuse_seen_result" by simp
  with v have diff: "\<exists>v1 v2. alloc_id (extra_fields (reuse_seen_result 0)) = Some v1
            \<and> alloc_id (extra_fields (reuse_seen_result 3)) = Some v2 \<and> v1 \<noteq> v2"
    by blast
  show ?thesis using ids_reuse_seen l d e r o ids diff by blast
qed

end
